theory Spec2Isabelle
  imports Main "HOL-Library.Word"
begin

section \<open>Data model\<close>

text \<open>
  The types \<open>Message\<close>, \<open>ToolInvocation\<close>, \<open>Attachment\<close> and \<open>JSONValue\<close> are imported by the
  sources from \<open>@ai-sdk/ui-utils\<close>; their fields are the ones the data model of the
  specification lists. An optional field is an \<open>option\<close>: \<open>None\<close> is the absent property.
\<close>

datatype json =
    JNull
  | JBool bool
  | JNumber int
  | JString string
  | JArray "json list"
  | JObject "(string \<times> json) list"

datatype role = System | User | Assistant | Tool

record attachment =
  name :: "string option"
  contentType :: "string option"
  url :: string

record tool_invocation =
  toolCallId :: string
  toolName :: string
  args :: json
  result :: "json option"

record message =
  msgId :: string
  role :: role
  content :: string
  toolInvocations :: "tool_invocation list option"
  annotations :: "json list option"
  experimental_attachments :: "attachment list option"
  createdAt :: "nat option"

section \<open>The continuation predicate of \<open>useChat\<close>\<close>

text \<open>
  \<open>Array.prototype.every\<close>: the callback is tried on the elements from left to right and
  the first failure ends the scan.
\<close>

fun every :: "('a \<Rightarrow> bool) \<Rightarrow> 'a list \<Rightarrow> bool" where
  "every p [] = True"
| "every p (x # xs) = (if p x then every p xs else False)"

text \<open>\<open>'result' in toolInvocation\<close>.\<close>

definition result_in :: "tool_invocation \<Rightarrow> bool" where
  "result_in toolInvocation = (result toolInvocation \<noteq> None)"

text \<open>
  \<open>isAssistantMessageWithCompletedToolCalls\<close>. The conjunction is evaluated left to right;
  \<open>message.toolInvocations\<close> is truthy exactly when the property is present (an array, even an
  empty one, is truthy).
\<close>

definition isAssistantMessageWithCompletedToolCalls :: "message \<Rightarrow> bool" where
  "isAssistantMessageWithCompletedToolCalls message =
     (if role message = Assistant then
        (case toolInvocations message of
           None \<Rightarrow> False
         | Some invocations \<Rightarrow>
             (if length invocations > 0 then every result_in invocations else False))
      else False)"

text \<open>
  \<open>countTrailingAssistantMessages\<close>: the loop runs \<open>i\<close> from \<open>messages.length - 1\<close> down to
  \<open>0\<close> and breaks at the first message that is not from the assistant. The loop variable of
  the model is \<open>n = i + 1\<close>, so that the exit test \<open>i \<ge> 0\<close> is \<open>n > 0\<close>.
\<close>

fun countTrailing_loop :: "message list \<Rightarrow> nat \<Rightarrow> nat \<Rightarrow> nat" where
  "countTrailing_loop messages 0 count = count"
| "countTrailing_loop messages (Suc i) count =
     (if i < length messages \<and> role (messages ! i) = Assistant
      then countTrailing_loop messages i (count + 1)
      else count)"

definition countTrailingAssistantMessages :: "message list \<Rightarrow> nat" where
  "countTrailingAssistantMessages messages = countTrailing_loop messages (length messages) 0"

text \<open>
  The test that ends \<open>triggerRequest\<close>: \<open>messageCount\<close> is the length of the message list
  when the request started, \<open>maxSteps\<close> the configured step budget.
  \<open>messages[messages.length - 1]\<close> is \<open>undefined\<close> on an empty list, which \<open>lastMessage != null\<close>
  rejects.
\<close>

definition lastMessage :: "message list \<Rightarrow> message option" where
  "lastMessage messages =
     (if length messages = 0 then None else Some (messages ! (length messages - 1)))"

definition auto_submit :: "message list \<Rightarrow> nat \<Rightarrow> int \<Rightarrow> bool" where
  "auto_submit messages messageCount maxSteps =
     (if length messages > messageCount then
        (case lastMessage messages of
           None \<Rightarrow> False
         | Some lastMsg \<Rightarrow>
             (if maxSteps > 1 then
                (if isAssistantMessageWithCompletedToolCalls lastMsg
                 then int (countTrailingAssistantMessages messages) < maxSteps
                 else False)
              else False))
      else False)"

section \<open>The session state and the transport\<close>

text \<open>
  A thrown value: its \<open>name\<close>, its \<open>message\<close>, and whether it is an \<open>instanceof Error\<close>.
  \<open>triggerRequest\<close> recognises a cancellation by the name \<open>AbortError\<close>.
\<close>

datatype err = Err (errName: string) (errMessage: string) (instanceofError: bool)

definition isAbortError :: "err \<Rightarrow> bool" where
  "isAbortError e = (errName e = ''AbortError'')"

text \<open>
  The error with which the platform rejects what is pending on a fetch once the signal of
  that fetch is aborted (the specification's \<open>AbortError\<close>).
\<close>

definition abort_error :: err where
  "abort_error = Err ''AbortError'' ''The operation was aborted.'' True"

datatype abort_controller = AbortController

text \<open>
  \<open>ChatRequestOptions\<close> and \<open>ChatRequest\<close>: a chat request carries the fields of the options
  it was built from, and the messages. The deprecated \<open>options\<close> property is the pair of its
  \<open>headers\<close> and \<open>body\<close>.
\<close>

record chat_request_options =
  options :: "(json option \<times> json option) option"
  functions' :: "json option"
  function_call :: "json option"
  tools :: "json option"
  tool_choice :: "json option"
  data :: "json option"
  headers :: "json option"
  body :: "json option"

record chat_request = chat_request_options +
  messages :: "message list"

text \<open>\<open>{ messages }\<close>: a chat request with the messages only.\<close>

definition messages_only :: "message list \<Rightarrow> chat_request" where
  "messages_only msgs =
     \<lparr> options = None, functions' = None, function_call = None, tools = None,
       tool_choice = None, data = None, headers = None, body = None, messages = msgs \<rparr>"

text \<open>
  The state \<open>useChat\<close> keeps for one chat id. \<open>messagesRef\<close> and \<open>streamDataRef\<close> are the
  references the callbacks read; an effect copies the stored messages and stream data into
  them after every change, and the model identifies each reference with what is stored.
  \<open>signalAborted\<close> is the \<open>aborted\<close> flag of the signal of the abort controller that the
  request in flight was started with: \<open>abort()\<close> sets it.
  \<open>fetched\<close> is not a variable of the source: it records, in order, the chat requests for
  which \<open>fetch\<close> was called.
\<close>

record session =
  messagesRef :: "message list"
  streamDataRef :: "json list option"
  isLoading :: bool
  error :: "err option"
  abortControllerRef :: "abort_controller option"
  signalAborted :: bool
  nextId :: nat
  fetched :: "chat_request list"

text \<open>
  What the transport does with one \<open>fetch\<close>. The body of a response is read chunk by chunk:
  \<open>Chunk\<close> is a read that resolves with bytes, \<open>ReadFails\<close> a read that rejects, the end of
  the list the read that reports \<open>done\<close>. \<open>StopCalled\<close> marks the caller invoking \<open>stop()\<close>
  while the next read is pending; what follows the mark is what the transport would have
  delivered. \<open>now\<close> is the value of \<open>new Date()\<close> when the body is read.
\<close>

datatype body_event = Chunk "8 word list" | ReadFails err | StopCalled

record response =
  ok :: bool
  responseText :: string
  responseBody :: "body_event list option"
  now :: nat

datatype fetch_result = Rejects err | Resolves response

text \<open>How an asynchronous call ends; \<open>Pending\<close> is a promise that never settles.\<close>

datatype 'a completion = Pending | Threw err | Returned 'a

text \<open>
  The options of \<open>useChat\<close> that the request cycle reads. \<open>generateId n\<close> is the \<open>n\<close>-th
  identifier the generator hands out. \<open>onResponse\<close> and \<open>onError\<close> are the caller's callbacks,
  absent (\<open>None\<close>) or given; a callback returns the error it throws, if it throws.
\<close>

datatype stream_mode = TextMode | StreamDataMode

record use_chat_options =
  maxSteps :: int
  keepLastMessageOnError :: bool
  streamProtocol :: stream_mode
  onResponse :: "(response \<Rightarrow> err option) option"
  onError :: "(err \<Rightarrow> err option) option"
  generateId :: "nat \<Rightarrow> string"

text \<open>
  The default of \<open>maxSteps\<close>, from the parameters of \<open>useChat\<close>: each deprecated option
  defaults to the one before it, the first to \<open>0\<close>, and \<open>maxSteps\<close> to
  \<open>maxToolRoundtrips + 1\<close>. \<open>None\<close> is an option the caller has not given.
\<close>

definition resolve_maxSteps :: "int option \<Rightarrow> int option \<Rightarrow> int option \<Rightarrow> int option \<Rightarrow> int" where
  "resolve_maxSteps experimental_maxAutomaticRoundtrips maxAutomaticRoundtrips
       maxToolRoundtrips givenMaxSteps =
     (let experimental = (case experimental_maxAutomaticRoundtrips of None \<Rightarrow> 0 | Some n \<Rightarrow> n);
          automatic = (case maxAutomaticRoundtrips of None \<Rightarrow> experimental | Some n \<Rightarrow> n);
          roundtrips = (case maxToolRoundtrips of None \<Rightarrow> automatic | Some n \<Rightarrow> n)
      in case givenMaxSteps of None \<Rightarrow> roundtrips + 1 | Some n \<Rightarrow> n)"

text \<open>
  Two functions of \<open>@ai-sdk/ui-utils\<close> are called by \<open>callChatApi\<close> and are not among the
  sources; the model takes them as parameters.
  \<open>decoder\<close> is the closure \<open>createChunkDecoder()\<close> returns: from the bytes it still holds and
  a chunk, the decoded text and the bytes it holds afterwards.
  \<open>parseComplexResponse\<close> is given by what it does with the reads of a body: the calls of its
  \<open>update\<close> callback, in order, and the value it returns or throws.
\<close>

record platform =
  decoder :: "8 word list \<Rightarrow> 8 word list \<Rightarrow> string \<times> 8 word list"
  parseComplexResponse ::
    "body_event list \<Rightarrow>
       (message list \<times> json list option) list \<times> (err + message list \<times> json list option)"

text \<open>
  \<open>stop\<close>: if there is an abort controller, \<open>abort()\<close> it, which aborts its signal, and
  forget it.
\<close>

definition stop :: "session \<Rightarrow> session" where
  "stop s =
     (if abortControllerRef s \<noteq> None
      then s\<lparr>signalAborted := True, abortControllerRef := None\<rparr>
      else s)"

text \<open>
  Modelled from the spec: the platform's reader under cancellation. Invoking \<open>stop\<close> signals
  the cancellation token, which aborts the in-flight read and discards any further events
  for that response: once the signal is aborted, the read that is pending rejects with the
  \<open>AbortError\<close>, and nothing that follows in the body is delivered.
\<close>

definition rejection_on_abort :: "session \<Rightarrow> err option" where
  "rejection_on_abort s = (if signalAborted s then Some abort_error else None)"

section \<open>\<open>callChatApi\<close>\<close>

text \<open>
  The read loop of the text mode. \<open>held\<close> is the state of the decoder. Each chunk extends the
  content, draws a new id and is published through \<open>onUpdate\<close>; the loop then ends when
  \<open>abortController?.() === null\<close>. A read that rejects throws out of the loop; so does the
  read that is pending when \<open>stop()\<close> aborts the signal.
\<close>

fun read_text_stream ::
  "platform \<Rightarrow> (nat \<Rightarrow> string) \<Rightarrow> (session \<Rightarrow> abort_controller option) option \<Rightarrow>
   (message list \<Rightarrow> json list option \<Rightarrow> session \<Rightarrow> session) \<Rightarrow>
   body_event list \<Rightarrow> 8 word list \<Rightarrow> message \<Rightarrow> session \<Rightarrow> session \<times> (err + message)" where
  "read_text_stream pf gen abortController onUpdate [] held resultMessage s =
     (s, Inr resultMessage)"
| "read_text_stream pf gen abortController onUpdate (StopCalled # reader) held resultMessage s =
     (case rejection_on_abort (stop s) of
        Some e \<Rightarrow> (stop s, Inl e)
      | None \<Rightarrow>
          read_text_stream pf gen abortController onUpdate reader held resultMessage (stop s))"
| "read_text_stream pf gen abortController onUpdate (ReadFails e # reader) held resultMessage s =
     (s, Inl e)"
| "read_text_stream pf gen abortController onUpdate (Chunk bytes # reader) held resultMessage s =
     (let (decoded, held') = decoder pf held bytes;
          resultMessage' = resultMessage\<lparr>content := content resultMessage @ decoded,
                                           msgId := gen (nextId s)\<rparr>;
          s' = onUpdate [resultMessage'] (Some []) (s\<lparr>nextId := nextId s + 1\<rparr>)
      in if (case abortController of None \<Rightarrow> False | Some f \<Rightarrow> f s' = None)
         then (s', Inr resultMessage')
         else read_text_stream pf gen abortController onUpdate reader held' resultMessage' s')"

text \<open>
  The data mode hands the reader to \<open>parseComplexResponse\<close>, with a copy of the current abort
  controller: the function does not see a later \<open>stop()\<close> in \<open>abortControllerRef\<close>. It sees
  it in its reads: \<open>reads_of\<close> are the reads it gets from a body, up to the read that the
  abort rejects.
\<close>

fun reads_of :: "body_event list \<Rightarrow> session \<Rightarrow> body_event list" where
  "reads_of [] s = []"
| "reads_of (StopCalled # reader) s =
     (case rejection_on_abort (stop s) of
        Some e \<Rightarrow> [ReadFails e]
      | None \<Rightarrow> reads_of reader (stop s))"
| "reads_of (ev # reader) s = ev # reads_of reader s"

definition stops_of :: "body_event list \<Rightarrow> session \<Rightarrow> session" where
  "stops_of reader s = fold (\<lambda>ev st. if ev = StopCalled then stop st else st) reader s"

definition read_data_stream ::
  "platform \<Rightarrow> (message list \<Rightarrow> json list option \<Rightarrow> session \<Rightarrow> session) \<Rightarrow>
   body_event list \<Rightarrow> session \<Rightarrow> session \<times> (err + message list \<times> json list option)" where
  "read_data_stream pf onUpdate reader s =
     (let (updates, outcome) = parseComplexResponse pf (reads_of reader s)
      in (fold (\<lambda>(merged, d) st. onUpdate merged d st) updates (stops_of reader s), outcome))"

text \<open>
  \<open>callChatApi\<close>. \<open>answer\<close> is what the transport does with the \<open>fetch\<close>; \<open>None\<close> is a request
  that is never answered.
\<close>

definition callChatApi ::
  "platform \<Rightarrow> chat_request \<Rightarrow> stream_mode \<Rightarrow> (session \<Rightarrow> abort_controller option) option \<Rightarrow>
   (session \<Rightarrow> session) \<Rightarrow> (response \<Rightarrow> err option) option \<Rightarrow>
   (message list \<Rightarrow> json list option \<Rightarrow> session \<Rightarrow> session) \<Rightarrow> (nat \<Rightarrow> string) \<Rightarrow>
   fetch_result option \<Rightarrow> session \<Rightarrow> session \<times> (message list \<times> json list option) completion" where
  "callChatApi pf chatRequest streamMode abortController restoreMessagesOnFailure onResp onUpdate
       gen answer s0 =
     (let s = s0\<lparr>fetched := fetched s0 @ [chatRequest]\<rparr> in
      case answer of
        None \<Rightarrow> (s, Pending)
      | Some (Rejects e) \<Rightarrow> (restoreMessagesOnFailure s, Threw e)
      | Some (Resolves r) \<Rightarrow>
          (case (case onResp of None \<Rightarrow> None | Some f \<Rightarrow> f r) of
             Some e \<Rightarrow> (s, Threw e)
           | None \<Rightarrow>
               if \<not> ok r then (restoreMessagesOnFailure s, Threw (Err ''Error'' (responseText r) True))
               else
                 (case responseBody r of
                    None \<Rightarrow> (s, Threw (Err ''Error'' ''The response body is empty.'' True))
                  | Some reader \<Rightarrow>
                      (case streamMode of
                         TextMode \<Rightarrow>
                           (let resultMessage =
                                  \<lparr> msgId = gen (nextId s), role = Assistant, content = [],
                                    toolInvocations = None, annotations = None,
                                    experimental_attachments = None, createdAt = Some (now r) \<rparr>
                            in case read_text_stream pf gen abortController onUpdate reader []
                                      resultMessage (s\<lparr>nextId := nextId s + 1\<rparr>) of
                                 (s', Inl e) \<Rightarrow> (s', Threw e)
                               | (s', Inr m) \<Rightarrow> (s', Returned ([m], Some [])))
                       | StreamDataMode \<Rightarrow>
                           (case read_data_stream pf onUpdate reader s of
                              (s', Inl e) \<Rightarrow> (s', Threw e)
                            | (s', Inr res) \<Rightarrow> (s', Returned res))))))"

section \<open>The request cycle of \<open>useChat\<close>\<close>

text \<open>
  \<open>getStreamedResponse\<close>: the optimistic update, then \<open>callChatApi\<close> with the two callbacks
  that write the messages. The function passes its stream protocol under the key
  \<open>streamProtocol\<close>, which \<open>callChatApi\<close> does not read, and no \<open>streamMode\<close>: whatever the
  protocol of the options, \<open>callChatApi\<close> reads the body in its default mode. The body that
  is posted is built from the chat request (its messages, projected to the fields the
  server reads unless \<open>sendExtraMessageFields\<close> is set); the model hands the chat request
  itself to \<open>callChatApi\<close>.
\<close>

definition restoreMessagesOnFailure :: "use_chat_options \<Rightarrow> message list \<Rightarrow> session \<Rightarrow> session" where
  "restoreMessagesOnFailure opts previousMessages s =
     (if \<not> keepLastMessageOnError opts then s\<lparr>messagesRef := previousMessages\<rparr> else s)"

definition onUpdate ::
  "chat_request \<Rightarrow> json list option \<Rightarrow> message list \<Rightarrow> json list option \<Rightarrow> session \<Rightarrow> session" where
  "onUpdate chatRequest existingData merged d s =
     s\<lparr>messagesRef := messages chatRequest @ merged,
       streamDataRef :=
         Some ((case existingData of None \<Rightarrow> [] | Some xs \<Rightarrow> xs) @
               (case d of None \<Rightarrow> [] | Some ys \<Rightarrow> ys))\<rparr>"

text \<open>
  The parameter \<open>streamMode\<close> of \<open>callChatApi\<close> has the default \<open>'stream-data'\<close>, which it takes
  when the caller passes no \<open>streamMode\<close>.
\<close>

definition streamMode_or_default :: "stream_mode option \<Rightarrow> stream_mode" where
  "streamMode_or_default streamMode =
     (case streamMode of None \<Rightarrow> StreamDataMode | Some mode \<Rightarrow> mode)"

definition getStreamedResponse ::
  "use_chat_options \<Rightarrow> platform \<Rightarrow> chat_request \<Rightarrow> fetch_result option \<Rightarrow> session \<Rightarrow>
   session \<times> (message list \<times> json list option) completion" where
  "getStreamedResponse opts pf chatRequest answer s =
     (let previousMessages = messagesRef s;
          s1 = s\<lparr>messagesRef := messages chatRequest\<rparr>;
          existingData = streamDataRef s1
      in callChatApi pf chatRequest (streamMode_or_default None) (Some abortControllerRef)
           (restoreMessagesOnFailure opts previousMessages)
           (onResponse opts)
           (onUpdate chatRequest existingData)
           (generateId opts) answer s1)"

text \<open>
  Modelled from the spec: \<open>processChatStream\<close> of \<open>@ai-sdk/ui-utils\<close>, which is not among the
  sources. One round trip is one request: the function awaits \<open>getStreamedResponse\<close> once
  and returns nothing. (It asks again only for the legacy \<open>function_call\<close> and \<open>tool_calls\<close>
  fields, which the messages of the specification do not have.)
\<close>

definition processChatStream ::
  "(session \<Rightarrow> session \<times> (message list \<times> json list option) completion) \<Rightarrow>
   session \<Rightarrow> session \<times> unit completion" where
  "processChatStream getResponse s =
     (case getResponse s of
        (s', Pending) \<Rightarrow> (s', Pending)
      | (s', Threw e) \<Rightarrow> (s', Threw e)
      | (s', Returned res) \<Rightarrow> (s', Returned ()))"

text \<open>
  The \<open>try\<close> block of \<open>triggerRequest\<close>, and the whole \<open>try\<close>/\<open>catch\<close>/\<open>finally\<close>. The cycle
  ends in one of four ways: the request is never answered; the \<open>catch\<close> clause returns
  \<open>null\<close> for an abort; control reaches the statements after the \<open>finally\<close> clause; or an
  error thrown in the \<open>catch\<close> clause escapes.
  In the \<open>catch\<close> clause \<open>onError(err)\<close> is called before \<open>setError(err)\<close>: when the callback
  throws, the error is not stored and what the callback has thrown leaves \<open>triggerRequest\<close>,
  after the \<open>finally\<close> clause. (\<open>onFinish\<close> and \<open>onToolCall\<close> are handed on to
  \<open>parseComplexResponse\<close>.)
\<close>

definition try_request ::
  "use_chat_options \<Rightarrow> platform \<Rightarrow> chat_request \<Rightarrow> fetch_result option \<Rightarrow> session \<Rightarrow>
   session \<times> unit completion" where
  "try_request opts pf chatRequest answer s =
     processChatStream (getStreamedResponse opts pf chatRequest answer)
       (s\<lparr>isLoading := True, error := None, signalAborted := False,
          abortControllerRef := Some AbortController\<rparr>)"

text \<open>\<open>if (onError && err instanceof Error) { onError(err); }\<close>: what the statement throws.\<close>

definition call_onError :: "use_chat_options \<Rightarrow> err \<Rightarrow> err option" where
  "call_onError opts e =
     (case onError opts of
        None \<Rightarrow> None
      | Some f \<Rightarrow> if instanceofError e then f e else None)"

datatype cycle_end = Unanswered | ReturnedNull | FallsThrough | Escapes err

definition request_cycle ::
  "use_chat_options \<Rightarrow> platform \<Rightarrow> chat_request \<Rightarrow> fetch_result option \<Rightarrow> session \<Rightarrow>
   session \<times> cycle_end" where
  "request_cycle opts pf chatRequest answer s =
     (case try_request opts pf chatRequest answer s of
        (s', Pending) \<Rightarrow> (s', Unanswered)
      | (s', Returned u) \<Rightarrow> (s'\<lparr>abortControllerRef := None, isLoading := False\<rparr>, FallsThrough)
      | (s', Threw e) \<Rightarrow>
          if isAbortError e
          then (s'\<lparr>abortControllerRef := None, isLoading := False\<rparr>, ReturnedNull)
          else
            (case call_onError opts e of
               Some thrown \<Rightarrow> (s'\<lparr>isLoading := False\<rparr>, Escapes thrown)
             | None \<Rightarrow> (s'\<lparr>error := Some e, isLoading := False\<rparr>, FallsThrough)))"

text \<open>
  \<open>triggerRequest\<close>. The list holds what the transport does with the successive fetches of
  the run; a fetch beyond the list is never answered. After a cycle that falls through, the
  messages are read again and the request is repeated with them when \<open>auto_submit\<close> holds.
\<close>

fun triggerRequest ::
  "use_chat_options \<Rightarrow> platform \<Rightarrow> chat_request \<Rightarrow> fetch_result list \<Rightarrow> session \<Rightarrow> session" where
  "triggerRequest opts pf chatRequest [] s = fst (request_cycle opts pf chatRequest None s)"
| "triggerRequest opts pf chatRequest (answer # answers) s =
     (let messageCount = length (messagesRef s) in
      case request_cycle opts pf chatRequest (Some answer) s of
        (s', FallsThrough) \<Rightarrow>
          if auto_submit (messagesRef s') messageCount (maxSteps opts)
          then triggerRequest opts pf (messages_only (messagesRef s')) answers s'
          else s'
      | (s', ended) \<Rightarrow> s')"

section \<open>\<open>reload\<close> and \<open>addToolResult\<close>\<close>

text \<open>\<open>headers ?? options?.headers\<close> and \<open>body ?? options?.body\<close>.\<close>

definition requestOptions :: "chat_request_options \<Rightarrow> json option \<times> json option" where
  "requestOptions chatRequestOptions =
     ((case headers chatRequestOptions of
         Some h \<Rightarrow> Some h
       | None \<Rightarrow> (case options chatRequestOptions of None \<Rightarrow> None | Some (h, b) \<Rightarrow> h)),
      (case body chatRequestOptions of
         Some b \<Rightarrow> Some b
       | None \<Rightarrow> (case options chatRequestOptions of None \<Rightarrow> None | Some (h, b) \<Rightarrow> b)))"

definition build_request :: "chat_request_options \<Rightarrow> message list \<Rightarrow> chat_request" where
  "build_request chatRequestOptions msgs =
     \<lparr> options = Some (requestOptions chatRequestOptions),
       functions' = functions' chatRequestOptions,
       function_call = function_call chatRequestOptions,
       tools = tools chatRequestOptions,
       tool_choice = tool_choice chatRequestOptions,
       data = data chatRequestOptions,
       headers = fst (requestOptions chatRequestOptions),
       body = snd (requestOptions chatRequestOptions),
       messages = msgs \<rparr>"

text \<open>
  \<open>Array.prototype.slice\<close> and \<open>String.prototype.slice\<close>: a negative index counts from the
  end, and both indices are clamped to the length.
\<close>

definition slice_index :: "nat \<Rightarrow> int \<Rightarrow> nat" where
  "slice_index len k = (if k < 0 then nat (max (int len + k) 0) else min (nat k) len)"

definition slice :: "'a list \<Rightarrow> int \<Rightarrow> int \<Rightarrow> 'a list" where
  "slice arr start finish =
     take (slice_index (length arr) finish - slice_index (length arr) start)
          (drop (slice_index (length arr) start) arr)"

definition slice_from :: "'a list \<Rightarrow> int \<Rightarrow> 'a list" where
  "slice_from arr start = drop (slice_index (length arr) start) arr"

text \<open>\<open>reload\<close>; \<open>None\<close> is the early \<open>return null\<close>.\<close>

definition reload ::
  "use_chat_options \<Rightarrow> platform \<Rightarrow> chat_request_options \<Rightarrow> fetch_result list \<Rightarrow> session \<Rightarrow>
   session option" where
  "reload opts pf chatRequestOptions answers s =
     (if length (messagesRef s) = 0 then None
      else
        (let lastMsg = messagesRef s ! (length (messagesRef s) - 1) in
         if role lastMsg = Assistant
         then Some (triggerRequest opts pf
                      (build_request chatRequestOptions (slice (messagesRef s) 0 (- 1))) answers s)
         else Some (triggerRequest opts pf
                      (build_request chatRequestOptions (messagesRef s)) answers s)))"

text \<open>\<open>Array.prototype.map\<close> with the callback's three arguments: element, index, array.\<close>

fun map_from :: "nat \<Rightarrow> ('a \<Rightarrow> nat \<Rightarrow> 'a list \<Rightarrow> 'b) \<Rightarrow> 'a list \<Rightarrow> 'a list \<Rightarrow> 'b list" where
  "map_from index f arr [] = []"
| "map_from index f arr (x # xs) = f x index arr # map_from (index + 1) f arr xs"

definition array_map :: "('a \<Rightarrow> nat \<Rightarrow> 'a list \<Rightarrow> 'b) \<Rightarrow> 'a list \<Rightarrow> 'b list" where
  "array_map f arr = map_from 0 f arr arr"

text \<open>The list \<open>updatedMessages\<close> that \<open>addToolResult\<close> computes and stores.\<close>

definition updatedMessages :: "message list \<Rightarrow> string \<Rightarrow> json \<Rightarrow> message list" where
  "updatedMessages msgs callId res =
     array_map
       (\<lambda>message index arr.
          if int index = int (length arr) - 1 \<and> role message = Assistant \<and>
             toolInvocations message \<noteq> None
          then message\<lparr>toolInvocations :=
                 Some (map (\<lambda>toolInvocation.
                              if toolCallId toolInvocation = callId
                              then toolInvocation\<lparr>result := Some res\<rparr>
                              else toolInvocation)
                           (the (toolInvocations message)))\<rparr>
          else message)
       msgs"

text \<open>
  \<open>addToolResult\<close>. On an empty list the last message is \<open>undefined\<close> and reading its role
  throws a \<open>TypeError\<close>, after the (empty) list has been stored.
\<close>

definition addToolResult ::
  "use_chat_options \<Rightarrow> platform \<Rightarrow> string \<Rightarrow> json \<Rightarrow> fetch_result list \<Rightarrow> session \<Rightarrow>
   err + session" where
  "addToolResult opts pf callId res answers s =
     (let updated = updatedMessages (messagesRef s) callId res;
          s1 = s\<lparr>messagesRef := updated\<rparr>
      in case lastMessage updated of
           None \<Rightarrow> Inl (Err ''TypeError'' ''Cannot read properties of undefined'' True)
         | Some lastMsg \<Rightarrow>
             if isAssistantMessageWithCompletedToolCalls lastMsg
             then Inr (triggerRequest opts pf (messages_only updated) answers s1)
             else Inr s1)"

section \<open>\<open>smoothStream\<close>\<close>

text \<open>
  A JavaScript string is a sequence of 16-bit code units. \<open>isWhiteSpace\<close> is the class \<open>\s\<close>
  of a regular expression without the unicode flag: the white space and line terminator
  code units of ECMAScript.
\<close>

type_synonym js_string = "16 word list"

definition isWhiteSpace :: "16 word \<Rightarrow> bool" where
  "isWhiteSpace c =
     (c = 0x0009 \<or> c = 0x000A \<or> c = 0x000B \<or> c = 0x000C \<or> c = 0x000D \<or> c = 0x0020 \<or>
      c = 0x00A0 \<or> c = 0x1680 \<or> (0x2000 \<le> c \<and> c \<le> 0x200A) \<or> c = 0x2028 \<or> c = 0x2029 \<or>
      c = 0x202F \<or> c = 0x205F \<or> c = 0x3000 \<or> c = 0xFEFF)"

text \<open>\<open>buffer.match(/\s/)\<close> is not \<open>null\<close>; \<open>buffer.search(/\s/)\<close>.\<close>

definition match_whitespace :: "js_string \<Rightarrow> bool" where
  "match_whitespace buffer = list_ex isWhiteSpace buffer"

fun search_whitespace :: "js_string \<Rightarrow> int" where
  "search_whitespace [] = - 1"
| "search_whitespace (c # cs) =
     (if isWhiteSpace c then 0
      else (let k = search_whitespace cs in if k < 0 then - 1 else k + 1))"

text \<open>
  The chunks of the stream: a text delta, a step finish, or a chunk of any other type (with
  its type tag); the other properties of a chunk are its payload.
\<close>

datatype chunk = TextDelta js_string | StepFinish json | OtherChunk string json

lemma search_whitespace_bounds:
  "match_whitespace buffer \<Longrightarrow>
     0 \<le> search_whitespace buffer \<and> search_whitespace buffer < int (length buffer)"
  by (induction buffer) (auto simp: match_whitespace_def Let_def)

text \<open>
  The \<open>while\<close> loop that streams out complete words; \<open>queue\<close> collects what
  \<open>controller.enqueue\<close> is given. (The delay between two words does not change what is
  enqueued.)
\<close>

function stream_words :: "js_string \<Rightarrow> chunk list \<Rightarrow> js_string \<times> chunk list" where
  "stream_words buffer queue =
     (if match_whitespace buffer then
        (let whitespaceIndex = search_whitespace buffer;
             word = slice buffer 0 (whitespaceIndex + 1)
         in stream_words (slice_from buffer (whitespaceIndex + 1)) (queue @ [TextDelta word]))
      else (buffer, queue))"
  by pat_completeness auto
termination
proof (relation "measure (\<lambda>(buffer, queue). length buffer)")
  show "wf (measure (\<lambda>(buffer, queue). length buffer))" by simp
next
  fix buffer :: js_string and queue :: "chunk list" and x xa
  assume "match_whitespace buffer" and "x = search_whitespace buffer"
  then have "0 \<le> x \<and> x < int (length buffer)"
    using search_whitespace_bounds by simp
  then show "((slice_from buffer (x + 1), queue @ [TextDelta xa]), (buffer, queue))
               \<in> measure (\<lambda>(buffer, queue). length buffer)"
    by (auto simp: slice_from_def slice_index_def)
qed

declare stream_words.simps [simp del]

text \<open>
  \<open>transform(chunk, controller)\<close>: from the buffer and a chunk, the new buffer and the
  chunks enqueued.
\<close>

definition transform :: "js_string \<Rightarrow> chunk \<Rightarrow> js_string \<times> chunk list" where
  "transform buffer chunk =
     (case chunk of
        StepFinish payload \<Rightarrow>
          (if length buffer > 0 then ([], [TextDelta buffer, chunk]) else (buffer, [chunk]))
      | OtherChunk tag payload \<Rightarrow> (buffer, [chunk])
      | TextDelta textDelta \<Rightarrow> stream_words (buffer @ textDelta) [])"

text \<open>The transform stream applied to the chunks written to it, from a given buffer.\<close>

fun pipe_chunks :: "js_string \<Rightarrow> chunk list \<Rightarrow> js_string \<times> chunk list" where
  "pipe_chunks buffer [] = (buffer, [])"
| "pipe_chunks buffer (chunk # chunks) =
     (let (buffer', enqueued) = transform buffer chunk;
          (buffer'', rest) = pipe_chunks buffer' chunks
      in (buffer'', enqueued @ rest))"

definition smoothStream :: "chunk list \<Rightarrow> chunk list" where
  "smoothStream chunks = snd (pipe_chunks [] chunks)"

section \<open>Notions of the specification\<close>

text \<open>
  The number of consecutive assistant messages at the end of a list, and the message that
  is ready for automatic continuation: an assistant message with at least one tool
  invocation, all of them with a result.
\<close>

definition trailing_assistants :: "message list \<Rightarrow> nat" where
  "trailing_assistants msgs = length (takeWhile (\<lambda>m. role m = Assistant) (rev msgs))"

definition ready_for_continuation :: "message \<Rightarrow> bool" where
  "ready_for_continuation m =
     (role m = Assistant \<and>
      (case toolInvocations m of
         None \<Rightarrow> False
       | Some invocations \<Rightarrow> invocations \<noteq> [] \<and> list_all (\<lambda>t. result t \<noteq> None) invocations))"

text \<open>The continuation predicate as the specification words it, conditions (a), (b), (c).\<close>

definition spec_shouldContinue :: "message list \<Rightarrow> int \<Rightarrow> bool" where
  "spec_shouldContinue msgs stepBudget =
     (msgs \<noteq> [] \<and> ready_for_continuation (last msgs) \<and>
      int (trailing_assistants msgs) < stepBudget)"

text \<open>The texts a decoder yields for a sequence of chunks, in order.\<close>

fun decoded_chunks :: "platform \<Rightarrow> 8 word list \<Rightarrow> 8 word list list \<Rightarrow> string list" where
  "decoded_chunks pf held [] = []"
| "decoded_chunks pf held (bytes # rest) =
     (let (decoded, held') = decoder pf held bytes in decoded # decoded_chunks pf held' rest)"

text \<open>The text carried by the text deltas of a sequence of chunks.\<close>

fun text_of :: "chunk list \<Rightarrow> js_string" where
  "text_of [] = []"
| "text_of (TextDelta t # chunks) = t @ text_of chunks"
| "text_of (c # chunks) = text_of chunks"

definition is_text_delta :: "chunk \<Rightarrow> bool" where
  "is_text_delta c = (case c of TextDelta t \<Rightarrow> True | StepFinish p \<Rightarrow> False | OtherChunk tag p \<Rightarrow> False)"

text \<open>A word: code units that are not white space, closed by one that is.\<close>

definition whole_word :: "js_string \<Rightarrow> bool" where
  "whole_word w = (w \<noteq> [] \<and> isWhiteSpace (last w) \<and> \<not> list_ex isWhiteSpace (butlast w))"

text \<open>What \<open>addToolResult\<close> does to one tool invocation.\<close>

definition attach_result :: "string \<Rightarrow> json \<Rightarrow> tool_invocation \<Rightarrow> tool_invocation" where
  "attach_result callId res t = (if toolCallId t = callId then t\<lparr>result := Some res\<rparr> else t)"

text \<open>
  An output stream is paced when every text delta in it is a whole word or is directly
  followed by a step finish (the flush of the buffer).
\<close>

fun paced :: "chunk list \<Rightarrow> bool" where
  "paced [] = True"
| "paced (c # cs) =
     ((case c of
         TextDelta w \<Rightarrow>
           whole_word w \<or> (case cs of StepFinish p # rest \<Rightarrow> True | _ \<Rightarrow> False)
       | StepFinish p \<Rightarrow> True
       | OtherChunk tag p \<Rightarrow> True) \<and>
      paced cs)"

text \<open>A JavaScript string from its characters.\<close>

definition js :: "string \<Rightarrow> js_string" where
  "js str = map of_char str"

text \<open>
  What the bound on the number of steps asks of the absent \<open>parseComplexResponse\<close>: the
  messages it publishes are assistant messages.
\<close>

definition assistant_replies :: "platform \<Rightarrow> bool" where
  "assistant_replies pf =
     (\<forall>reads. \<forall>u \<in> set (fst (parseComplexResponse pf reads)).
        \<forall>m \<in> set (fst u). role m = Assistant)"


section \<open>Concrete inputs\<close>

text \<open>
  A small conversation, a platform and transport answers on which the definitions are
  evaluated. The example decoder reads every byte as one character and holds nothing back;
  the example \<open>parseComplexResponse\<close> publishes and returns one assistant message whose only
  tool invocation has its result.
\<close>

definition tool_open :: tool_invocation where
  "tool_open = \<lparr> toolCallId = ''call-1'', toolName = ''weather'', args = JObject [], result = None \<rparr>"

definition tool_done :: tool_invocation where
  "tool_done = tool_open\<lparr>result := Some (JString ''sunny'')\<rparr>"

definition user_message :: message where
  "user_message =
     \<lparr> msgId = ''u1'', role = User, content = ''weather?'', toolInvocations = None,
       annotations = None, experimental_attachments = None, createdAt = None \<rparr>"

definition assistant_open :: message where
  "assistant_open =
     \<lparr> msgId = ''a1'', role = Assistant, content = [], toolInvocations = Some [tool_open],
       annotations = None, experimental_attachments = None, createdAt = None \<rparr>"

definition assistant_done :: message where
  "assistant_done = assistant_open\<lparr>toolInvocations := Some [tool_done]\<rparr>"

definition example_platform :: platform where
  "example_platform =
     \<lparr> decoder = (\<lambda>held bytes. (map (\<lambda>b. char_of (unat b)) bytes, [])),
       parseComplexResponse = (\<lambda>reads. ([([assistant_done], None)], Inr ([assistant_done], None))) \<rparr>"

definition example_options :: "int \<Rightarrow> stream_mode \<Rightarrow> use_chat_options" where
  "example_options budget mode =
     \<lparr> maxSteps = budget, keepLastMessageOnError = False, streamProtocol = mode,
       onResponse = None, onError = None, generateId = (\<lambda>n. replicate n CHR ''i'') \<rparr>"

definition idle_session :: "message list \<Rightarrow> session" where
  "idle_session msgs =
     \<lparr> messagesRef = msgs, streamDataRef = None, isLoading = False, error = None,
       abortControllerRef = None, signalAborted = False, nextId = 0, fetched = [] \<rparr>"

definition ok_response :: "body_event list \<Rightarrow> fetch_result" where
  "ok_response reader =
     Resolves \<lparr> ok = True, responseText = [], responseBody = Some reader, now = 0 \<rparr>"

definition no_options :: chat_request_options where
  "no_options =
     \<lparr> options = None, functions' = None, function_call = None, tools = None,
       tool_choice = None, data = None, headers = None, body = None \<rparr>"

definition failed_response :: fetch_result where
  "failed_response =
     Resolves \<lparr> ok = False, responseText = ''Internal Server Error'', responseBody = None, now = 0 \<rparr>"

text \<open>Options whose \<open>onResponse\<close> callback throws when the status is not ok.\<close>

definition strict_options :: use_chat_options where
  "strict_options =
     (example_options 1 StreamDataMode)
       \<lparr>onResponse := Some (\<lambda>r. if ok r then None else Some (Err ''Error'' ''bad status'' True))\<rparr>"

text \<open>Options whose \<open>onError\<close> callback throws.\<close>

definition failing_observer :: use_chat_options where
  "failing_observer =
     (example_options 1 StreamDataMode)
       \<lparr>onError := Some (\<lambda>e. Some (Err ''Error'' ''observer failed'' True))\<rparr>"

text \<open>
  A platform whose \<open>parseComplexResponse\<close> publishes a completed assistant message and then
  throws an error that is not an abort.
\<close>

definition breaking_platform :: platform where
  "breaking_platform =
     example_platform
       \<lparr>parseComplexResponse :=
          (\<lambda>reads. ([([assistant_done], None)], Inl (Err ''Error'' ''stream broke'' True)))\<rparr>"





section \<open>Properties of the continuation predicate\<close>

lemma every_list_all: "every p xs = list_all p xs"
  by (induction xs) auto

lemma result_in_eq: "result_in = (\<lambda>t. result t \<noteq> None)"
  by (rule ext) (simp add: result_in_def)

lemma lastMessage_last: "lastMessage msgs = (if msgs = [] then None else Some (last msgs))"
  by (simp add: lastMessage_def last_conv_nth)

lemma countTrailing_loop_takeWhile:
  "n \<le> length msgs \<Longrightarrow>
     countTrailing_loop msgs n c =
       c + length (takeWhile (\<lambda>m. role m = Assistant) (rev (take n msgs)))"
proof (induction n arbitrary: c)
  case 0
  then show ?case by simp
next
  case (Suc n)
  then have "take (Suc n) msgs = take n msgs @ [msgs ! n]"
    by (simp add: take_Suc_conv_app_nth)
  with Suc show ?case by simp
qed

lemma countTrailing_trailing: "countTrailingAssistantMessages msgs = trailing_assistants msgs"
  by (simp add: countTrailingAssistantMessages_def trailing_assistants_def
      countTrailing_loop_takeWhile)

lemma completed_ready: "isAssistantMessageWithCompletedToolCalls m = ready_for_continuation m"
  by (auto simp: isAssistantMessageWithCompletedToolCalls_def ready_for_continuation_def
      every_list_all result_in_eq split: option.splits)

lemma trailing_pos:
  "msgs \<noteq> [] \<Longrightarrow> role (last msgs) = Assistant \<Longrightarrow> 0 < trailing_assistants msgs"
  by (cases msgs rule: rev_cases) (auto simp: trailing_assistants_def)

lemma auto_submit_iff:
  "auto_submit msgs messageCount budget =
     (messageCount < length msgs \<and> spec_shouldContinue msgs budget)"
  using trailing_pos[of msgs]
  by (auto simp: auto_submit_def lastMessage_last completed_ready countTrailing_trailing
      spec_shouldContinue_def ready_for_continuation_def)

section \<open>What a request cycle leaves unchanged\<close>

lemma read_text_stream_frame:
  assumes "\<And>m d st. f (upd m d st) = f st"
    and "\<And>st k. f (st\<lparr>nextId := k\<rparr>) = f st"
    and "\<And>st. f (stop st) = f st"
  shows "f (fst (read_text_stream pf gen ab upd reader held m s)) = f s"
proof (induction reader arbitrary: held m s)
  case Nil
  then show ?case by simp
next
  case (Cons ev reader)
  show ?case
  proof (cases ev)
    case (Chunk bytes)
    then show ?thesis
      using Cons by (simp add: assms Let_def split: prod.splits)
  next
    case (ReadFails e)
    then show ?thesis by simp
  next
    case StopCalled
    then show ?thesis using Cons by (simp add: assms split: option.splits)
  qed
qed

lemma stops_of_frame:
  assumes "\<And>st. f (stop st) = f st"
  shows "f (stops_of reader s) = f s"
  unfolding stops_of_def
  by (induction reader arbitrary: s) (simp_all add: assms)

lemma fold_updates_frame:
  assumes "\<And>m d st. f (upd m d st) = f st"
  shows "f (fold (\<lambda>(merged, d) st. upd merged d st) updates s) = f s"
  by (induction updates arbitrary: s) (auto simp: assms)

lemma read_data_stream_frame:
  assumes "\<And>m d st. f (upd m d st) = f st"
    and "\<And>st. f (stop st) = f st"
  shows "f (fst (read_data_stream pf upd reader s)) = f s"
  by (simp add: read_data_stream_def split: prod.splits)
     (simp add: fold_updates_frame[of f upd, OF assms(1)] stops_of_frame[of f, OF assms(2)])

lemma callChatApi_frame:
  assumes "\<And>m d st. f (upd m d st) = f st"
    and "\<And>st k. f (st\<lparr>nextId := k\<rparr>) = f st"
    and "\<And>st. f (stop st) = f st"
    and "\<And>st. f (restore st) = f st"
    and "\<And>st k. f (st\<lparr>fetched := k\<rparr>) = f st"
  shows "f (fst (callChatApi pf req mode ab restore onResp upd gen answer s)) = f s"
proof -
  have t: "\<And>reader held m st. f (fst (read_text_stream pf gen ab upd reader held m st)) = f st"
    by (rule read_text_stream_frame) (simp_all add: assms)
  have d: "\<And>reader st. f (fst (read_data_stream pf upd reader st)) = f st"
    by (rule read_data_stream_frame) (simp_all add: assms)
  have t': "\<And>reader held m st a b. read_text_stream pf gen ab upd reader held m st = (a, b) \<Longrightarrow> f a = f st"
    using t by (metis fst_conv)
  have d': "\<And>reader st a b. read_data_stream pf upd reader st = (a, b) \<Longrightarrow> f a = f st"
    using d by (metis fst_conv)
  show ?thesis
    by (auto simp: callChatApi_def Let_def assms dest!: t' d'
        split: option.splits fetch_result.splits stream_mode.splits prod.splits sum.splits)
qed

lemma stop_simps [simp]:
  "isLoading (stop s) = isLoading s" "error (stop s) = error s" "fetched (stop s) = fetched s"
  "messagesRef (stop s) = messagesRef s" "streamDataRef (stop s) = streamDataRef s"
  "nextId (stop s) = nextId s"
  by (simp_all add: stop_def)

lemma onUpdate_simps [simp]:
  "isLoading (onUpdate req ex m d s) = isLoading s" "error (onUpdate req ex m d s) = error s"
  "fetched (onUpdate req ex m d s) = fetched s"
  "abortControllerRef (onUpdate req ex m d s) = abortControllerRef s"
  "nextId (onUpdate req ex m d s) = nextId s"
  "messagesRef (onUpdate req ex m d s) = messages req @ m"
  by (simp_all add: onUpdate_def)

lemma restore_simps [simp]:
  "isLoading (restoreMessagesOnFailure opts prev s) = isLoading s"
  "error (restoreMessagesOnFailure opts prev s) = error s"
  "fetched (restoreMessagesOnFailure opts prev s) = fetched s"
  "abortControllerRef (restoreMessagesOnFailure opts prev s) = abortControllerRef s"
  "nextId (restoreMessagesOnFailure opts prev s) = nextId s"
  by (simp_all add: restoreMessagesOnFailure_def)

lemma getStreamedResponse_isLoading:
  "isLoading (fst (getStreamedResponse opts pf req answer s)) = isLoading s"
  unfolding getStreamedResponse_def Let_def
  by (subst callChatApi_frame) simp_all

lemma getStreamedResponse_error:
  "error (fst (getStreamedResponse opts pf req answer s)) = error s"
  unfolding getStreamedResponse_def Let_def
  by (subst callChatApi_frame) simp_all

lemma callChatApi_fetched:
  assumes "\<And>m d st. fetched (upd m d st) = fetched st"
    and "\<And>st. fetched (restore st) = fetched st"
  shows "fetched (fst (callChatApi pf req mode ab restore onResp upd gen answer s)) = fetched s @ [req]"
proof -
  have t: "\<And>reader held m st. fetched (fst (read_text_stream pf gen ab upd reader held m st)) = fetched st"
    by (rule read_text_stream_frame) (simp_all add: assms)
  have d: "\<And>reader st. fetched (fst (read_data_stream pf upd reader st)) = fetched st"
    by (rule read_data_stream_frame) (simp_all add: assms)
  have t': "\<And>reader held m st a b. read_text_stream pf gen ab upd reader held m st = (a, b) \<Longrightarrow> fetched a = fetched st"
    using t by (metis fst_conv)
  have d': "\<And>reader st a b. read_data_stream pf upd reader st = (a, b) \<Longrightarrow> fetched a = fetched st"
    using d by (metis fst_conv)
  show ?thesis
    by (auto simp: callChatApi_def Let_def assms dest!: t' d'
        split: option.splits fetch_result.splits stream_mode.splits prod.splits sum.splits)
qed

lemma getStreamedResponse_fetched:
  "fetched (fst (getStreamedResponse opts pf req answer s)) = fetched s @ [req]"
  unfolding getStreamedResponse_def Let_def
  by (subst callChatApi_fetched) simp_all


lemma callChatApi_pending:
  "snd (callChatApi pf req mode ab restore onResp upd gen answer s) = Pending \<longleftrightarrow> answer = None"
  by (auto simp: callChatApi_def Let_def
      split: option.splits fetch_result.splits stream_mode.splits prod.splits sum.splits)

lemma getStreamedResponse_pending:
  "snd (getStreamedResponse opts pf req answer s) = Pending \<longleftrightarrow> answer = None"
  by (simp add: getStreamedResponse_def Let_def callChatApi_pending)

lemma processChatStream_fst: "fst (processChatStream g s) = fst (g s)"
  by (simp add: processChatStream_def split: prod.splits completion.splits option.splits)

lemma processChatStream_snd:
  "snd (processChatStream g s) =
     (case snd (g s) of Pending \<Rightarrow> Pending | Threw e \<Rightarrow> Threw e | Returned r \<Rightarrow> Returned ())"
  by (simp add: processChatStream_def split: prod.splits completion.splits option.splits)

lemma try_request_pending:
  "snd (try_request opts pf req answer s) = Pending \<longleftrightarrow> answer = None"
proof -
  let ?c = "snd (getStreamedResponse opts pf req answer
                  (s\<lparr>isLoading := True, error := None, signalAborted := False, abortControllerRef := Some AbortController\<rparr>))"
  have "(?c = Pending) = (answer = None)"
    by (rule getStreamedResponse_pending)
  then show ?thesis
    by (cases ?c) (simp_all add: try_request_def processChatStream_snd)
qed

lemma try_request_isLoading: "isLoading (fst (try_request opts pf req answer s))"
  by (simp add: try_request_def processChatStream_fst getStreamedResponse_isLoading)

lemma try_request_error: "error (fst (try_request opts pf req answer s)) = None"
  by (simp add: try_request_def processChatStream_fst getStreamedResponse_error)

lemma try_request_fetched: "fetched (fst (try_request opts pf req answer s)) = fetched s @ [req]"
  by (simp add: try_request_def processChatStream_fst getStreamedResponse_fetched)

lemma request_cycle_fetched:
  "fetched (fst (request_cycle opts pf req answer s)) = fetched s @ [req]"
  using try_request_fetched[of opts pf req answer s]
  by (auto simp: request_cycle_def split: prod.splits completion.splits option.splits)

lemma request_cycle_unanswered:
  "snd (request_cycle opts pf req answer s) = Unanswered \<longleftrightarrow> answer = None"
  using try_request_pending[of opts pf req answer s]
  by (auto simp: request_cycle_def split: prod.splits completion.splits option.splits)

lemma request_cycle_isLoading:
  "isLoading (fst (request_cycle opts pf req answer s)) \<longleftrightarrow> answer = None"
  using try_request_pending[of opts pf req answer s] try_request_isLoading[of opts pf req answer s]
  by (auto simp: request_cycle_def split: prod.splits completion.splits option.splits)

lemma request_cycle_error:
  "error (fst (request_cycle opts pf req answer s)) =
     (case snd (try_request opts pf req answer s) of
        Threw e \<Rightarrow> if isAbortError e \<or> call_onError opts e \<noteq> None then None else Some e
      | Returned u \<Rightarrow> None
      | Pending \<Rightarrow> None)"
  using try_request_error[of opts pf req answer s]
  by (auto simp: request_cycle_def split: prod.splits completion.splits option.splits)

lemma triggerRequest_fetched:
  "\<exists>later. fetched (triggerRequest opts pf req answers s) = fetched s @ req # later"
proof (induction answers arbitrary: req s)
  case Nil
  then show ?case by (simp add: request_cycle_fetched)
next
  case (Cons answer answers)
  obtain s' e where c: "request_cycle opts pf req (Some answer) s = (s', e)"
    by (cases "request_cycle opts pf req (Some answer) s")
  then have f: "fetched s' = fetched s @ [req]"
    using request_cycle_fetched[of opts pf req "Some answer" s] by simp
  show ?case
  proof (cases "e = FallsThrough \<and> auto_submit (messagesRef s') (length (messagesRef s)) (maxSteps opts)")
    case True
    then have "triggerRequest opts pf req (answer # answers) s =
                 triggerRequest opts pf (messages_only (messagesRef s')) answers s'"
      using c by simp
    then show ?thesis using Cons[of "messages_only (messagesRef s')" s'] f by auto
  next
    case False
    then have "triggerRequest opts pf req (answer # answers) s = s'"
      using c by (cases e) auto
    then show ?thesis using f by simp
  qed
qed

lemma triggerRequest_no_follow_up:
  "maxSteps opts \<le> 1 \<Longrightarrow> fetched (triggerRequest opts pf req answers s) = fetched s @ [req]"
proof (cases answers)
  case Nil
  then show ?thesis by (simp add: request_cycle_fetched)
next
  case (Cons answer rest)
  assume "maxSteps opts \<le> 1"
  then have "\<And>msgs n. \<not> auto_submit msgs n (maxSteps opts)"
    by (simp add: auto_submit_def split: option.splits)
  then show ?thesis
    using Cons request_cycle_fetched[of opts pf req "Some answer" s]
    by (auto split: prod.splits cycle_end.splits)
qed

section \<open>Evaluation on the concrete inputs\<close>

lemmas example_defs =
  tool_open_def tool_done_def user_message_def assistant_open_def assistant_done_def
  example_platform_def example_options_def idle_session_def ok_response_def failed_response_def
  no_options_def

lemmas cycle_defs =
  request_cycle_def try_request_def processChatStream_def getStreamedResponse_def
  callChatApi_def read_data_stream_def stops_of_def onUpdate_def
  restoreMessagesOnFailure_def stop_def isAbortError_def messages_only_def
  streamMode_or_default_def call_onError_def rejection_on_abort_def abort_error_def

section \<open>C1: the continuation predicate\<close>

text \<open>
  C1, as amended. The test \<open>triggerRequest\<close> makes after a round trip holds if and only if
  the message list is longer than it was when the request started and (a) the most recent
  message is an assistant message, (b) it has at least one tool invocation and every tool
  invocation has a result, (c) the number of consecutive trailing assistant messages is
  strictly less than \<open>maxSteps\<close>. After a round trip that is answered, one automatic
  follow-up request with the current messages is issued when the test holds and the cycle
  has reached it, that is, when the cycle ended neither in an abort nor in an error thrown
  by the \<open>onError\<close> callback; otherwise none is.
\<close>

theorem continuation_predicate:
  "auto_submit msgs messageCount budget =
     (messageCount < length msgs \<and> spec_shouldContinue msgs budget) \<and>
   (\<forall>s' ended. request_cycle opts pf req (Some answer) s = (s', ended) \<longrightarrow>
      fetched (triggerRequest opts pf req [answer] s) =
        (if ended = FallsThrough \<and> length (messagesRef s) < length (messagesRef s') \<and>
            spec_shouldContinue (messagesRef s') (maxSteps opts)
         then fetched s @ [req, messages_only (messagesRef s')]
         else fetched s @ [req]))"
proof (intro conjI allI impI)
  show "auto_submit msgs messageCount budget =
          (messageCount < length msgs \<and> spec_shouldContinue msgs budget)"
    by (rule auto_submit_iff)
next
  fix s' ended
  assume c: "request_cycle opts pf req (Some answer) s = (s', ended)"
  then have f: "fetched s' = fetched s @ [req]"
    using request_cycle_fetched[of opts pf req "Some answer" s] by simp
  have g: "fetched (fst (request_cycle opts pf (messages_only (messagesRef s')) None s')) =
             fetched s @ [req, messages_only (messagesRef s')]"
    by (simp add: request_cycle_fetched f)
  show "fetched (triggerRequest opts pf req [answer] s) =
          (if ended = FallsThrough \<and> length (messagesRef s) < length (messagesRef s') \<and>
              spec_shouldContinue (messagesRef s') (maxSteps opts)
           then fetched s @ [req, messages_only (messagesRef s')]
           else fetched s @ [req])"
    using c f g by (cases ended) (simp_all add: auto_submit_iff)
qed

text \<open>
  The theorem at a run: a user message is sent with a budget of two steps, the answer is an
  assistant message whose tool invocation has its result, and one follow-up is issued. So
  it is when the response breaks after that message was published and \<open>onError\<close> returns;
  when \<open>onError\<close> throws, the test is not reached and no follow-up is issued.
\<close>

theorem continuation_predicate_witness:
  "auto_submit [user_message, assistant_done] 1 2 \<and>
   spec_shouldContinue [user_message, assistant_done] 2 \<and>
   fetched (triggerRequest (example_options 2 StreamDataMode) example_platform
              (messages_only [user_message]) [ok_response []] (idle_session [])) =
     [messages_only [user_message], messages_only [user_message, assistant_done]] \<and>
   fetched (triggerRequest (example_options 2 StreamDataMode) breaking_platform
              (messages_only [user_message]) [ok_response []] (idle_session [])) =
     [messages_only [user_message], messages_only [user_message, assistant_done]] \<and>
   fetched (triggerRequest (failing_observer\<lparr>maxSteps := 2\<rparr>) breaking_platform
              (messages_only [user_message]) [ok_response []] (idle_session [])) =
     [messages_only [user_message]]"
proof -
  have c: "request_cycle (example_options 2 StreamDataMode) example_platform
             (messages_only [user_message]) (Some (ok_response [])) (idle_session []) =
           ((idle_session [])\<lparr>messagesRef := [user_message, assistant_done],
               streamDataRef := Some [], fetched := [messages_only [user_message]]\<rparr>,
            FallsThrough)"
    by (simp add: cycle_defs example_defs)
  have b: "request_cycle (example_options 2 StreamDataMode) breaking_platform
             (messages_only [user_message]) (Some (ok_response [])) (idle_session []) =
           ((idle_session [])\<lparr>messagesRef := [user_message, assistant_done],
               streamDataRef := Some [], error := Some (Err ''Error'' ''stream broke'' True),
               abortControllerRef := Some AbortController,
               fetched := [messages_only [user_message]]\<rparr>,
            FallsThrough)"
    by (simp add: cycle_defs example_defs breaking_platform_def)
  have t: "request_cycle (failing_observer\<lparr>maxSteps := 2\<rparr>) breaking_platform
             (messages_only [user_message]) (Some (ok_response [])) (idle_session []) =
           ((idle_session [])\<lparr>messagesRef := [user_message, assistant_done],
               streamDataRef := Some [], abortControllerRef := Some AbortController,
               fetched := [messages_only [user_message]]\<rparr>,
            Escapes (Err ''Error'' ''observer failed'' True))"
    by (simp add: cycle_defs example_defs breaking_platform_def failing_observer_def)
  have r: "spec_shouldContinue [user_message, assistant_done] 2"
    by (simp add: spec_shouldContinue_def ready_for_continuation_def trailing_assistants_def
        example_defs)
  show ?thesis
    using continuation_predicate[of "[user_message, assistant_done]" 1 2
        "example_options 2 StreamDataMode" example_platform "messages_only [user_message]"
        "ok_response []" "idle_session []"]
      continuation_predicate[of "[user_message, assistant_done]" 1 2
        "example_options 2 StreamDataMode" breaking_platform "messages_only [user_message]"
        "ok_response []" "idle_session []"]
      continuation_predicate[of "[user_message, assistant_done]" 1 2
        "failing_observer\<lparr>maxSteps := 2\<rparr>" breaking_platform
        "messages_only [user_message]" "ok_response []" "idle_session []"] c b t r
    by (simp add: idle_session_def example_options_def failing_observer_def)
qed

text \<open>
  The claim as stated fails where the list did not grow. \<open>reload\<close> on a conversation that
  ends in a completed assistant message drops that message and asks again; the answer is
  again a completed assistant message, so (a), (b) and (c) hold with a budget of two steps,
  but the list is as long as before and no follow-up request is issued.
\<close>

theorem continuation_predicate_counterexample:
  "reload (example_options 2 StreamDataMode) example_platform no_options [ok_response []]
     (idle_session [user_message, assistant_done]) =
     Some ((idle_session [user_message, assistant_done])
             \<lparr>streamDataRef := Some [],
              fetched := [build_request no_options [user_message]]\<rparr>) \<and>
   spec_shouldContinue [user_message, assistant_done] 2 \<and>
   \<not> auto_submit [user_message, assistant_done] 2 2"
  by (simp add: reload_def cycle_defs example_defs build_request_def requestOptions_def
      slice_def slice_index_def auto_submit_def spec_shouldContinue_def
      ready_for_continuation_def trailing_assistants_def)

section \<open>C9 and C8: addToolResult and reload\<close>

lemma length_map_from: "length (map_from i f arr xs) = length xs"
  by (induction xs arbitrary: i) simp_all

lemma nth_map_from: "k < length xs \<Longrightarrow> map_from i f arr xs ! k = f (xs ! k) (i + k) arr"
proof (induction xs arbitrary: i k)
  case Nil
  then show ?case by simp
next
  case (Cons x xs)
  then show ?case by (cases k) simp_all
qed

lemma length_updatedMessages: "length (updatedMessages msgs callId res) = length msgs"
  by (simp add: updatedMessages_def array_map_def length_map_from)

lemma nth_updatedMessages_earlier:
  "Suc i < length msgs \<Longrightarrow> updatedMessages msgs callId res ! i = msgs ! i"
  by (simp add: updatedMessages_def array_map_def nth_map_from)

lemma last_updatedMessages:
  "msgs \<noteq> [] \<Longrightarrow>
   last (updatedMessages msgs callId res) =
     (if role (last msgs) = Assistant
      then (last msgs)\<lparr>toolInvocations :=
             map_option (map (attach_result callId res)) (toolInvocations (last msgs))\<rparr>
      else last msgs)"
proof -
  assume n: "msgs \<noteq> []"
  then have l: "length msgs - 1 < length msgs" by simp
  have u: "updatedMessages msgs callId res \<noteq> []"
    using n length_updatedMessages[of msgs callId res] by auto
  have a: "attach_result callId res =
             (\<lambda>t. if toolCallId t = callId then t\<lparr>result := Some res\<rparr> else t)"
    by (rule ext) (simp add: attach_result_def)
  have "last (updatedMessages msgs callId res) =
          updatedMessages msgs callId res ! (length msgs - 1)"
    using u by (simp add: last_conv_nth length_updatedMessages)
  also have "\<dots> = (if role (last msgs) = Assistant
      then (last msgs)\<lparr>toolInvocations :=
             map_option (map (attach_result callId res)) (toolInvocations (last msgs))\<rparr>
      else last msgs)"
  proof -
    have e: "int (length msgs - 1) = int (length msgs) - 1"
      using n by (cases msgs) simp_all
    have o: "\<And>m. toolInvocations m = None \<Longrightarrow> m\<lparr>toolInvocations := None\<rparr> = m"
      by simp
    show ?thesis
      using n l e
      by (cases "toolInvocations (msgs ! (length msgs - 1))")
         (simp_all add: updatedMessages_def array_map_def nth_map_from last_conv_nth a o)
  qed
  finally show ?thesis .
qed

lemma updatedMessages_unchanged:
  "\<not> (msgs \<noteq> [] \<and> role (last msgs) = Assistant \<and> toolInvocations (last msgs) \<noteq> None) \<Longrightarrow>
   updatedMessages msgs callId res = msgs"
proof (rule nth_equalityI)
  show "length (updatedMessages msgs callId res) = length msgs"
    by (rule length_updatedMessages)
next
  fix i
  assume h: "\<not> (msgs \<noteq> [] \<and> role (last msgs) = Assistant \<and> toolInvocations (last msgs) \<noteq> None)"
    and "i < length (updatedMessages msgs callId res)"
  then have i: "i < length msgs" by (simp add: length_updatedMessages)
  show "updatedMessages msgs callId res ! i = msgs ! i"
  proof (cases "Suc i < length msgs")
    case True
    then show ?thesis by (rule nth_updatedMessages_earlier)
  next
    case False
    with i have e: "i = length msgs - 1" and n: "msgs \<noteq> []" by auto
    have "updatedMessages msgs callId res ! i = last (updatedMessages msgs callId res)"
      using n e length_updatedMessages[of msgs callId res]
      by (metis last_conv_nth length_0_conv)
    also have "\<dots> = last msgs"
      using h n by (auto simp: last_updatedMessages)
    also have "\<dots> = msgs ! i" using n e by (simp add: last_conv_nth)
    finally show ?thesis .
  qed
qed


lemma request_cycle_unanswered_messages:
  "messagesRef (fst (request_cycle opts pf req None s)) = messages req"
  by (simp add: cycle_defs)

text \<open>
  C9. \<open>addToolResult\<close> stores a list of the same length, in which every message but the
  last is the message it was; the last message differs at most in its tool invocations,
  of which only those with the given \<open>toolCallId\<close> change (they get the result, everything
  else in them stays); and when the last message is not an assistant message with tool
  invocations the list is the list it was. Until an answer arrives, the stored messages are
  that list.
\<close>

theorem addToolResult_frame:
  "length (updatedMessages msgs callId res) = length msgs \<and>
   (\<forall>i. Suc i < length msgs \<longrightarrow> updatedMessages msgs callId res ! i = msgs ! i) \<and>
   (msgs \<noteq> [] \<longrightarrow>
      (\<exists>invocations'.
         last (updatedMessages msgs callId res) = (last msgs)\<lparr>toolInvocations := invocations'\<rparr> \<and>
         (case toolInvocations (last msgs) of
            None \<Rightarrow> invocations' = None
          | Some invocations \<Rightarrow>
              (\<exists>changed. invocations' = Some changed \<and> length changed = length invocations \<and>
                 (\<forall>j < length invocations.
                    changed ! j =
                      (if toolCallId (invocations ! j) = callId \<and> role (last msgs) = Assistant
                       then (invocations ! j)\<lparr>result := Some res\<rparr>
                       else invocations ! j)))))) \<and>
   (\<not> (msgs \<noteq> [] \<and> role (last msgs) = Assistant \<and> toolInvocations (last msgs) \<noteq> None) \<longrightarrow>
      updatedMessages msgs callId res = msgs) \<and>
   (\<forall>s'. addToolResult opts pf callId res [] s = Inr s' \<longrightarrow>
      messagesRef s' = updatedMessages (messagesRef s) callId res)"
proof (intro conjI allI impI)
  show "length (updatedMessages msgs callId res) = length msgs"
    by (rule length_updatedMessages)
next
  fix i assume "Suc i < length msgs"
  then show "updatedMessages msgs callId res ! i = msgs ! i"
    by (rule nth_updatedMessages_earlier)
next
  assume n: "msgs \<noteq> []"
  let ?m = "last msgs"
  show "\<exists>invocations'.
         last (updatedMessages msgs callId res) = ?m\<lparr>toolInvocations := invocations'\<rparr> \<and>
         (case toolInvocations ?m of
            None \<Rightarrow> invocations' = None
          | Some invocations \<Rightarrow>
              (\<exists>changed. invocations' = Some changed \<and> length changed = length invocations \<and>
                 (\<forall>j < length invocations.
                    changed ! j =
                      (if toolCallId (invocations ! j) = callId \<and> role ?m = Assistant
                       then (invocations ! j)\<lparr>result := Some res\<rparr>
                       else invocations ! j))))"
  proof (cases "role ?m = Assistant")
    case True
    then have "last (updatedMessages msgs callId res) =
                 ?m\<lparr>toolInvocations :=
                      map_option (map (attach_result callId res)) (toolInvocations ?m)\<rparr>"
      using n by (simp add: last_updatedMessages)
    then show ?thesis
      using True by (cases "toolInvocations ?m") (auto simp: attach_result_def)
  next
    case False
    then have "last (updatedMessages msgs callId res) = ?m\<lparr>toolInvocations := toolInvocations ?m\<rparr>"
      using n by (simp add: last_updatedMessages)
    then show ?thesis
      using False by (cases "toolInvocations ?m") auto
  qed
next
  assume "\<not> (msgs \<noteq> [] \<and> role (last msgs) = Assistant \<and> toolInvocations (last msgs) \<noteq> None)"
  then show "updatedMessages msgs callId res = msgs"
    by (rule updatedMessages_unchanged)
next
  fix s'
  assume "addToolResult opts pf callId res [] s = Inr s'"
  then show "messagesRef s' = updatedMessages (messagesRef s) callId res"
    by (auto simp: addToolResult_def Let_def request_cycle_unanswered_messages messages_only_def
        split: option.splits if_splits)
qed

text \<open>
  The theorem at two lists: the open invocation of the last assistant message gets its
  result; a list that ends in a user message is left as it is.
\<close>

theorem addToolResult_frame_witness:
  "updatedMessages [user_message, assistant_open] ''call-1'' (JString ''sunny'') =
     [user_message, assistant_done] \<and>
   updatedMessages [assistant_open, user_message] ''call-1'' (JString ''sunny'') =
     [assistant_open, user_message]"
proof -
  have l: "last [user_message, assistant_open] = assistant_open"
          "last [assistant_open, user_message] = user_message" by simp_all
  have u: "updatedMessages [user_message, assistant_open] ''call-1'' (JString ''sunny'') =
             [user_message, assistant_done]"
    by (simp add: updatedMessages_def array_map_def example_defs)
  show ?thesis
    using addToolResult_frame[of "[assistant_open, user_message]" "''call-1''" "JString ''sunny''"
        "example_options 1 TextMode" example_platform "idle_session []"] u
    by (simp add: user_message_def)
qed

lemma slice_butlast: "slice xs 0 (- 1) = butlast xs"
proof -
  have "nat (max (int (length xs) - 1) 0) = length xs - 1" by (cases xs) simp_all
  then show ?thesis by (simp add: slice_def slice_index_def butlast_conv_take)
qed

text \<open>
  C8. \<open>reload\<close> on an empty list returns \<open>null\<close> at once, and no request is issued. On any
  other list the first request it issues is built from the caller's options and carries
  the messages without the last one when the last message is from the assistant, and all
  the messages otherwise.
\<close>

theorem reload_request:
  "(messagesRef s = [] \<longrightarrow> reload opts pf chatRequestOptions answers s = None) \<and>
   (messagesRef s \<noteq> [] \<longrightarrow>
      (\<exists>s' request later.
         reload opts pf chatRequestOptions answers s = Some s' \<and>
         fetched s' = fetched s @ request # later \<and>
         request = build_request chatRequestOptions (messages request) \<and>
         messages request =
           (if role (last (messagesRef s)) = Assistant then butlast (messagesRef s)
            else messagesRef s)))"
proof (intro conjI impI)
  assume "messagesRef s = []"
  then show "reload opts pf chatRequestOptions answers s = None"
    by (simp add: reload_def)
next
  assume n: "messagesRef s \<noteq> []"
  let ?payload = "if role (last (messagesRef s)) = Assistant then butlast (messagesRef s)
                  else messagesRef s"
  let ?request = "build_request chatRequestOptions ?payload"
  have r: "reload opts pf chatRequestOptions answers s =
             Some (triggerRequest opts pf ?request answers s)"
    using n by (simp add: reload_def Let_def last_conv_nth slice_butlast)
  obtain later where
    "fetched (triggerRequest opts pf ?request answers s) = fetched s @ ?request # later"
    using triggerRequest_fetched[of opts pf ?request answers s] by blast
  moreover have "messages ?request = ?payload"
    by (simp add: build_request_def)
  ultimately show "\<exists>s' request later.
         reload opts pf chatRequestOptions answers s = Some s' \<and>
         fetched s' = fetched s @ request # later \<and>
         request = build_request chatRequestOptions (messages request) \<and>
         messages request = ?payload"
    using r by (intro exI[of _ "triggerRequest opts pf ?request answers s"] exI[of _ ?request]
        exI[of _ later]) simp
qed

text \<open>The theorem on the empty conversation and on one that ends in an assistant message.\<close>

theorem reload_request_witness:
  "reload (example_options 1 StreamDataMode) example_platform no_options [] (idle_session []) = None \<and>
   map_option fetched
     (reload (example_options 1 StreamDataMode) example_platform no_options []
        (idle_session [user_message, assistant_done])) =
     Some [build_request no_options [user_message]] \<and>
   map_option fetched
     (reload (example_options 1 StreamDataMode) example_platform no_options []
        (idle_session [user_message])) =
     Some [build_request no_options [user_message]]"
  using reload_request[of "idle_session []" "example_options 1 StreamDataMode" example_platform
          no_options "[]"]
        reload_request[of "idle_session [user_message, assistant_done]"
          "example_options 1 StreamDataMode" example_platform no_options "[]"]
  by (simp add: reload_def cycle_defs example_defs build_request_def requestOptions_def
      slice_def slice_index_def)

section \<open>C10: smoothStream\<close>

lemma search_whitespace_first:
  "match_whitespace buffer \<Longrightarrow>
     isWhiteSpace (buffer ! nat (search_whitespace buffer)) \<and>
     \<not> list_ex isWhiteSpace (take (nat (search_whitespace buffer)) buffer)"
proof (induction buffer)
  case Nil
  then show ?case by (simp add: match_whitespace_def)
next
  case (Cons c cs)
  show ?case
  proof (cases "isWhiteSpace c")
    case True
    then show ?thesis by simp
  next
    case False
    with Cons.prems have m: "match_whitespace cs" by (simp add: match_whitespace_def)
    then have b: "0 \<le> search_whitespace cs" using search_whitespace_bounds by blast
    then have "nat (search_whitespace cs + 1) = Suc (nat (search_whitespace cs))" by simp
    with Cons.IH[OF m] False b show ?thesis by (simp add: Let_def)
  qed
qed

lemma first_word:
  assumes "match_whitespace buffer"
  shows "whole_word (slice buffer 0 (search_whitespace buffer + 1))"
    and "slice buffer 0 (search_whitespace buffer + 1) @
           slice_from buffer (search_whitespace buffer + 1) = buffer"
proof -
  let ?i = "nat (search_whitespace buffer)"
  have b: "0 \<le> search_whitespace buffer" "search_whitespace buffer < int (length buffer)"
    using search_whitespace_bounds[OF assms] by simp_all
  then have i: "?i < length buffer" by simp
  have n: "nat (search_whitespace buffer + 1) = Suc ?i" using b by simp
  have s: "slice buffer 0 (search_whitespace buffer + 1) = take (Suc ?i) buffer"
    using b i by (simp add: slice_def slice_index_def n)
  have f: "slice_from buffer (search_whitespace buffer + 1) = drop (Suc ?i) buffer"
    using b i by (simp add: slice_from_def slice_index_def n)
  have t: "take (Suc ?i) buffer = take ?i buffer @ [buffer ! ?i]"
    using i by (simp add: take_Suc_conv_app_nth)
  show "whole_word (slice buffer 0 (search_whitespace buffer + 1))"
    using search_whitespace_first[OF assms] by (simp add: s t whole_word_def)
  show "slice buffer 0 (search_whitespace buffer + 1) @
           slice_from buffer (search_whitespace buffer + 1) = buffer"
    by (simp add: s f)
qed

lemma stream_words_unfold:
  "stream_words buffer queue =
     (if match_whitespace buffer then
        stream_words (slice_from buffer (search_whitespace buffer + 1))
          (queue @ [TextDelta (slice buffer 0 (search_whitespace buffer + 1))])
      else (buffer, queue))"
  by (subst stream_words.simps) (simp add: Let_def)

lemma stream_words_spec:
  "\<exists>ws. snd (stream_words buffer queue) = queue @ map TextDelta ws \<and>
        list_all whole_word ws \<and>
        concat ws @ fst (stream_words buffer queue) = buffer \<and>
        \<not> match_whitespace (fst (stream_words buffer queue))"
proof (induction buffer queue rule: stream_words.induct)
  case (1 buffer queue)
  show ?case
  proof (cases "match_whitespace buffer")
    case False
    then show ?thesis by (subst (1 2 3) stream_words_unfold) simp
  next
    case True
    let ?w = "slice buffer 0 (search_whitespace buffer + 1)"
    let ?b = "slice_from buffer (search_whitespace buffer + 1)"
    let ?r = "stream_words ?b (queue @ [TextDelta ?w])"
    from "1.IH"[OF True refl refl] obtain ws where
      ws: "snd ?r = (queue @ [TextDelta ?w]) @ map TextDelta ws" "list_all whole_word ws"
          "concat ws @ fst ?r = ?b" "\<not> match_whitespace (fst ?r)"
      by blast
    have u: "stream_words buffer queue = ?r"
      using True by (subst stream_words_unfold) simp
    have "snd ?r = queue @ map TextDelta (?w # ws)" using ws(1) by simp
    moreover have "list_all whole_word (?w # ws)" using ws(2) first_word(1)[OF True] by simp
    moreover have "concat (?w # ws) @ fst ?r = buffer"
      using ws(3) first_word(2)[OF True] by simp
    ultimately show ?thesis using ws(4) unfolding u by blast
  qed
qed

lemma text_of_append: "text_of (xs @ ys) = text_of xs @ text_of ys"
  by (induction xs rule: text_of.induct) simp_all

lemma text_of_words: "text_of (map TextDelta ws) = concat ws"
  by (induction ws) simp_all

lemma filter_words: "filter (\<lambda>c. \<not> is_text_delta c) (map TextDelta ws) = []"
  by (induction ws) (simp_all add: is_text_delta_def)

lemma paced_words: "list_all whole_word ws \<Longrightarrow> paced (map TextDelta ws)"
  by (induction ws) simp_all

lemma paced_append: "paced xs \<Longrightarrow> paced ys \<Longrightarrow> paced (xs @ ys)"
proof (induction xs)
  case Nil
  then show ?case by simp
next
  case (Cons c cs)
  then show ?case
    by (cases cs) (auto split: chunk.splits list.splits)
qed

lemma transform_text:
  "text_of (snd (transform buffer chunk)) @ fst (transform buffer chunk) = buffer @ text_of [chunk]"
proof (cases chunk)
  case (TextDelta t)
  obtain ws where "snd (stream_words (buffer @ t) []) = [] @ map TextDelta ws"
    "concat ws @ fst (stream_words (buffer @ t) []) = buffer @ t"
    using stream_words_spec[of "buffer @ t" "[]"] by blast
  then show ?thesis using TextDelta by (simp add: transform_def text_of_words)
qed (simp_all add: transform_def)

lemma transform_others:
  "filter (\<lambda>c. \<not> is_text_delta c) (snd (transform buffer chunk)) =
     filter (\<lambda>c. \<not> is_text_delta c) [chunk]"
proof (cases chunk)
  case (TextDelta t)
  obtain ws where "snd (stream_words (buffer @ t) []) = [] @ map TextDelta ws"
    using stream_words_spec[of "buffer @ t" "[]"] by blast
  then show ?thesis using TextDelta by (simp add: transform_def filter_words is_text_delta_def)
qed (simp_all add: transform_def is_text_delta_def)

lemma transform_paced: "paced (snd (transform buffer chunk))"
proof (cases chunk)
  case (TextDelta t)
  obtain ws where "snd (stream_words (buffer @ t) []) = [] @ map TextDelta ws"
    "list_all whole_word ws"
    using stream_words_spec[of "buffer @ t" "[]"] by blast
  then show ?thesis using TextDelta by (simp add: transform_def paced_words)
qed (simp_all add: transform_def)

lemma transform_step_finish: "fst (transform buffer (StepFinish p)) = []"
  by (simp add: transform_def)

lemma transform_text_delta:
  "\<exists>ws. snd (transform buffer (TextDelta t)) = map TextDelta ws \<and> list_all whole_word ws \<and>
        \<not> match_whitespace (fst (transform buffer (TextDelta t)))"
  using stream_words_spec[of "buffer @ t" "[]"] by (auto simp: transform_def)

lemma pipe_chunks_text:
  "text_of (snd (pipe_chunks buffer chunks)) @ fst (pipe_chunks buffer chunks) =
     buffer @ text_of chunks"
proof (induction chunks arbitrary: buffer)
  case Nil
  then show ?case by simp
next
  case (Cons c cs)
  obtain b1 out where t: "transform buffer c = (b1, out)" by (cases "transform buffer c")
  obtain b2 rest where p: "pipe_chunks b1 cs = (b2, rest)" by (cases "pipe_chunks b1 cs")
  have "text_of out @ b1 = buffer @ text_of [c]" using transform_text[of buffer c] t by simp
  moreover have "text_of rest @ b2 = b1 @ text_of cs" using Cons[of b1] p by simp
  moreover have "text_of (c # cs) = text_of [c] @ text_of cs"
    using text_of_append[of "[c]" cs] by simp
  ultimately show ?case using t p by (simp add: text_of_append)
qed

lemma pipe_chunks_others:
  "filter (\<lambda>c. \<not> is_text_delta c) (snd (pipe_chunks buffer chunks)) =
     filter (\<lambda>c. \<not> is_text_delta c) chunks"
proof (induction chunks arbitrary: buffer)
  case Nil
  then show ?case by simp
next
  case (Cons c cs)
  obtain b1 out where t: "transform buffer c = (b1, out)" by (cases "transform buffer c")
  obtain b2 rest where p: "pipe_chunks b1 cs = (b2, rest)" by (cases "pipe_chunks b1 cs")
  show ?case using transform_others[of buffer c] Cons[of b1] t p by simp
qed

lemma pipe_chunks_paced: "paced (snd (pipe_chunks buffer chunks))"
proof (induction chunks arbitrary: buffer)
  case Nil
  then show ?case by simp
next
  case (Cons c cs)
  obtain b1 out where t: "transform buffer c = (b1, out)" by (cases "transform buffer c")
  obtain b2 rest where p: "pipe_chunks b1 cs = (b2, rest)" by (cases "pipe_chunks b1 cs")
  show ?case using transform_paced[of buffer c] Cons[of b1] t p by (simp add: paced_append)
qed

lemma pipe_chunks_append:
  "pipe_chunks buffer (xs @ ys) =
     (fst (pipe_chunks (fst (pipe_chunks buffer xs)) ys),
      snd (pipe_chunks buffer xs) @ snd (pipe_chunks (fst (pipe_chunks buffer xs)) ys))"
proof (induction xs arbitrary: buffer)
  case Nil
  then show ?case by simp
next
  case (Cons c cs)
  obtain b1 out where t: "transform buffer c = (b1, out)" by (cases "transform buffer c")
  show ?case using Cons[of b1] t by (simp split: prod.splits)
qed

lemma pipe_chunks_step_finish: "fst (pipe_chunks buffer (xs @ [StepFinish p])) = []"
  by (simp add: pipe_chunks_append transform_step_finish split: prod.splits)

text \<open>
  C10. The chunks that are not text deltas pass through \<open>smoothStream\<close> unchanged and in
  order. Every text delta that is enqueued for a text delta is one whole word, ending in
  its only white space; in the output stream a text delta is a whole word or is directly
  followed by the step finish that flushed it. The text emitted never runs ahead of the
  text received, the rest being held in the buffer; and up to and including each step
  finish, the text emitted is exactly the text received.
\<close>

theorem smoothStream_pacing:
  "filter (\<lambda>c. \<not> is_text_delta c) (smoothStream chunks) =
     filter (\<lambda>c. \<not> is_text_delta c) chunks \<and>
   paced (smoothStream chunks) \<and>
   (\<forall>buffer t. \<exists>ws. snd (transform buffer (TextDelta t)) = map TextDelta ws \<and>
                      list_all whole_word ws) \<and>
   text_of (smoothStream chunks) @ fst (pipe_chunks [] chunks) = text_of chunks \<and>
   (\<forall>before payload after. chunks = before @ StepFinish payload # after \<longrightarrow>
      (\<exists>later. smoothStream chunks = smoothStream (before @ [StepFinish payload]) @ later) \<and>
      text_of (smoothStream (before @ [StepFinish payload])) = text_of before)"
proof (intro conjI allI impI)
  show "filter (\<lambda>c. \<not> is_text_delta c) (smoothStream chunks) =
          filter (\<lambda>c. \<not> is_text_delta c) chunks"
    by (simp add: smoothStream_def pipe_chunks_others)
next
  show "paced (smoothStream chunks)"
    by (simp add: smoothStream_def pipe_chunks_paced)
next
  fix buffer t
  show "\<exists>ws. snd (transform buffer (TextDelta t)) = map TextDelta ws \<and> list_all whole_word ws"
    using transform_text_delta[of buffer t] by blast
next
  show "text_of (smoothStream chunks) @ fst (pipe_chunks [] chunks) = text_of chunks"
    using pipe_chunks_text[of "[]" chunks] by (simp add: smoothStream_def)
next
  fix before payload after
  assume c: "chunks = before @ StepFinish payload # after"
  then have "chunks = (before @ [StepFinish payload]) @ after" by simp
  then show "\<exists>later. smoothStream chunks = smoothStream (before @ [StepFinish payload]) @ later"
    unfolding smoothStream_def by (simp only: pipe_chunks_append snd_conv) blast
next
  fix before payload after
  have "text_of (smoothStream (before @ [StepFinish payload])) @
          fst (pipe_chunks [] (before @ [StepFinish payload])) =
        text_of (before @ [StepFinish payload])"
    using pipe_chunks_text[of "[]" "before @ [StepFinish payload]"] by (simp add: smoothStream_def)
  then show "text_of (smoothStream (before @ [StepFinish payload])) = text_of before"
    by (simp add: pipe_chunks_step_finish text_of_append)
qed

text \<open>
  The theorem on a stream: a word split over two deltas with a tool call between them, a
  step finish, and a last delta that is held back.
\<close>

theorem smoothStream_pacing_witness:
  "smoothStream
     [TextDelta (js ''hi th''), OtherChunk ''tool-call'' JNull, TextDelta (js ''ere''),
      StepFinish JNull, TextDelta (js ''bye'')] =
     [TextDelta (js ''hi ''), OtherChunk ''tool-call'' JNull, TextDelta (js ''there''),
      StepFinish JNull] \<and>
   text_of
     (smoothStream
        ([TextDelta (js ''hi th''), OtherChunk ''tool-call'' JNull, TextDelta (js ''ere'')] @
         [StepFinish JNull])) =
     js ''hi there''"
  using smoothStream_pacing[of
      "[TextDelta (js ''hi th''), OtherChunk ''tool-call'' JNull, TextDelta (js ''ere''),
        StepFinish JNull, TextDelta (js ''bye'')]"]
  by (simp add: smoothStream_def transform_def js_def match_whitespace_def isWhiteSpace_def
      slice_def slice_from_def slice_index_def stream_words.simps)

section \<open>C4: failure before the first byte\<close>

lemma getStreamedResponse_rejected:
  "getStreamedResponse opts pf req (Some (Rejects e)) s =
     (s\<lparr>messagesRef := (if keepLastMessageOnError opts then messages req else messagesRef s),
        fetched := fetched s @ [req]\<rparr>, Threw e)"
  by (simp add: getStreamedResponse_def callChatApi_def restoreMessagesOnFailure_def Let_def)

lemma getStreamedResponse_not_ok:
  "\<not> ok r \<Longrightarrow> (case onResponse opts of None \<Rightarrow> True | Some f \<Rightarrow> f r = None) \<Longrightarrow>
   getStreamedResponse opts pf req (Some (Resolves r)) s =
     (s\<lparr>messagesRef := (if keepLastMessageOnError opts then messages req else messagesRef s),
        fetched := fetched s @ [req]\<rparr>, Threw (Err ''Error'' (responseText r) True))"
  by (auto simp: getStreamedResponse_def callChatApi_def restoreMessagesOnFailure_def Let_def
      split: option.splits)

lemma request_cycle_threw:
  "getStreamedResponse opts pf req answer
     (s\<lparr>isLoading := True, error := None, signalAborted := False, abortControllerRef := Some AbortController\<rparr>) =
     (s', Threw e) \<Longrightarrow>
   request_cycle opts pf req answer s =
     (if isAbortError e then (s'\<lparr>abortControllerRef := None, isLoading := False\<rparr>, ReturnedNull)
      else
        (case call_onError opts e of
           Some thrown \<Rightarrow> (s'\<lparr>isLoading := False\<rparr>, Escapes thrown)
         | None \<Rightarrow> (s'\<lparr>error := Some e, isLoading := False\<rparr>, FallsThrough)))"
  by (simp add: request_cycle_def try_request_def processChatStream_def)

lemma request_cycle_returned:
  "getStreamedResponse opts pf req answer
     (s\<lparr>isLoading := True, error := None, signalAborted := False, abortControllerRef := Some AbortController\<rparr>) =
     (s', Returned res) \<Longrightarrow>
   request_cycle opts pf req answer s =
     (s'\<lparr>abortControllerRef := None, isLoading := False\<rparr>, FallsThrough)"
  by (simp add: request_cycle_def try_request_def processChatStream_def)

text \<open>
  C4, as amended. If the fetch itself throws, or the response status is not ok and the
  \<open>onResponse\<close> callback (if there is one) has returned normally, then the message list is
  restored to the list read before the optimistic update, unless \<open>keepLastMessageOnError\<close>
  is set, in which case the list of the request, with the optimistically appended message,
  is kept; nothing else of the session changes; \<open>callChatApi\<close> throws the failure to its
  caller, and the request cycle stores it in the error slot unless it is an abort or the
  \<open>onError\<close> callback, which is handed the failure first, throws.
\<close>

theorem rollback_before_first_byte:
  "(answer = Rejects e \<or>
    (\<exists>r. answer = Resolves r \<and> \<not> ok r \<and>
         (case onResponse opts of None \<Rightarrow> True | Some f \<Rightarrow> f r = None) \<and>
         e = Err ''Error'' (responseText r) True)) \<longrightarrow>
   getStreamedResponse opts pf req (Some answer) s =
     (s\<lparr>messagesRef := (if keepLastMessageOnError opts then messages req else messagesRef s),
        fetched := fetched s @ [req]\<rparr>, Threw e) \<and>
   messagesRef (fst (request_cycle opts pf req (Some answer) s)) =
     (if keepLastMessageOnError opts then messages req else messagesRef s) \<and>
   error (fst (request_cycle opts pf req (Some answer) s)) =
     (if isAbortError e \<or> call_onError opts e \<noteq> None then None else Some e)"
proof (intro impI)
  let ?s1 = "s\<lparr>isLoading := True, error := None, signalAborted := False,
               abortControllerRef := Some AbortController\<rparr>"
  let ?kept = "if keepLastMessageOnError opts then messages req else messagesRef s"
  assume a: "answer = Rejects e \<or>
    (\<exists>r. answer = Resolves r \<and> \<not> ok r \<and>
         (case onResponse opts of None \<Rightarrow> True | Some f \<Rightarrow> f r = None) \<and>
         e = Err ''Error'' (responseText r) True)"
  have g: "\<And>st. getStreamedResponse opts pf req (Some answer) st =
     (st\<lparr>messagesRef := (if keepLastMessageOnError opts then messages req else messagesRef st),
        fetched := fetched st @ [req]\<rparr>, Threw e)"
    using a getStreamedResponse_rejected getStreamedResponse_not_ok by blast
  note c = request_cycle_threw[OF g[of ?s1]]
  show "getStreamedResponse opts pf req (Some answer) s =
     (s\<lparr>messagesRef := ?kept, fetched := fetched s @ [req]\<rparr>, Threw e) \<and>
   messagesRef (fst (request_cycle opts pf req (Some answer) s)) = ?kept \<and>
   error (fst (request_cycle opts pf req (Some answer) s)) =
     (if isAbortError e \<or> call_onError opts e \<noteq> None then None else Some e)"
    using g[of s] c by (cases "call_onError opts e") simp_all
qed

text \<open>
  The theorem at a response with status 500, which rolls the user message back and whose
  error is stored, unless \<open>onError\<close> throws; and at a rejected fetch with
  \<open>keepLastMessageOnError\<close>, which keeps the user message.
\<close>

theorem rollback_before_first_byte_witness:
  "messagesRef (fst (getStreamedResponse (example_options 1 StreamDataMode) example_platform
      (messages_only [user_message]) (Some failed_response) (idle_session []))) = [] \<and>
   snd (getStreamedResponse (example_options 1 StreamDataMode) example_platform
      (messages_only [user_message]) (Some failed_response) (idle_session [])) =
     Threw (Err ''Error'' ''Internal Server Error'' True) \<and>
   error (fst (request_cycle (example_options 1 StreamDataMode) example_platform
      (messages_only [user_message]) (Some failed_response) (idle_session []))) =
     Some (Err ''Error'' ''Internal Server Error'' True) \<and>
   messagesRef (fst (request_cycle failing_observer example_platform
      (messages_only [user_message]) (Some failed_response) (idle_session []))) = [] \<and>
   error (fst (request_cycle failing_observer example_platform
      (messages_only [user_message]) (Some failed_response) (idle_session []))) = None \<and>
   messagesRef (fst (getStreamedResponse
      ((example_options 1 StreamDataMode)\<lparr>keepLastMessageOnError := True\<rparr>) example_platform
      (messages_only [user_message]) (Some (Rejects (Err ''TypeError'' ''Failed to fetch'' True)))
      (idle_session []))) = [user_message]"
  using rollback_before_first_byte[of failed_response "Err ''Error'' ''Internal Server Error'' True"
          "example_options 1 StreamDataMode" example_platform "messages_only [user_message]"
          "idle_session []"]
        rollback_before_first_byte[of failed_response "Err ''Error'' ''Internal Server Error'' True"
          failing_observer example_platform "messages_only [user_message]" "idle_session []"]
        rollback_before_first_byte[of "Rejects (Err ''TypeError'' ''Failed to fetch'' True)"
          "Err ''TypeError'' ''Failed to fetch'' True"
          "(example_options 1 StreamDataMode)\<lparr>keepLastMessageOnError := True\<rparr>"
          example_platform "messages_only [user_message]" "idle_session []"]
  by (simp add: example_defs messages_only_def isAbortError_def call_onError_def
      failing_observer_def)

text \<open>
  The claim as stated fails when \<open>onResponse\<close> throws on a response whose status is not ok:
  \<open>callChatApi\<close> rethrows before it tests \<open>response.ok\<close>, and the optimistic update stays
  although \<open>keepLastMessageOnError\<close> is not set.
\<close>

theorem rollback_before_first_byte_counterexample:
  "\<not> keepLastMessageOnError strict_options \<and>
   messagesRef (idle_session []) = [] \<and>
   getStreamedResponse strict_options example_platform (messages_only [user_message])
     (Some failed_response) (idle_session []) =
     ((idle_session [])\<lparr>messagesRef := [user_message],
                         fetched := [messages_only [user_message]]\<rparr>,
      Threw (Err ''Error'' ''bad status'' True))"
  by (simp add: strict_options_def cycle_defs example_defs)

section \<open>C6: the loading flag and the error slot\<close>

lemma triggerRequest_isLoading:
  "isLoading (triggerRequest opts pf req answers s) =
     (length (fetched (triggerRequest opts pf req answers s)) =
        length (fetched s) + length answers + 1)"
proof (induction answers arbitrary: req s)
  case Nil
  then show ?case by (simp add: request_cycle_fetched request_cycle_isLoading)
next
  case (Cons answer answers)
  obtain s' e where c: "request_cycle opts pf req (Some answer) s = (s', e)"
    by (cases "request_cycle opts pf req (Some answer) s")
  then have f: "fetched s' = fetched s @ [req]"
    using request_cycle_fetched[of opts pf req "Some answer" s] by simp
  have l: "\<not> isLoading s'"
    using request_cycle_isLoading[of opts pf req "Some answer" s] c by simp
  show ?case
  proof (cases "e = FallsThrough \<and> auto_submit (messagesRef s') (length (messagesRef s)) (maxSteps opts)")
    case True
    then have "triggerRequest opts pf req (answer # answers) s =
                 triggerRequest opts pf (messages_only (messagesRef s')) answers s'"
      using c by simp
    then show ?thesis using Cons[of "messages_only (messagesRef s')" s'] f by simp
  next
    case False
    then have "triggerRequest opts pf req (answer # answers) s = s'"
      using c by (cases e) auto
    then show ?thesis using f l by simp
  qed
qed

text \<open>
  C6, as amended. While a request is tried \<open>isLoading\<close> is true, from its start until the
  \<open>finally\<close> clause; once the request is answered, whatever the answer, \<open>isLoading\<close> is
  false. When the attempt throws an error that is not an abort, the error slot holds that
  error, unless the \<open>onError\<close> callback, which is called with the error first, throws; then
  the slot stays empty. When the attempt returns, and when it is aborted, the error slot is
  empty, whatever it held before. At the end of a run of \<open>triggerRequest\<close> the session is
  loading exactly when its last fetch has not been answered.
\<close>

theorem loading_and_error_slots:
  "isLoading (fst (try_request opts pf req answer s)) \<and>
   isLoading (fst (request_cycle opts pf req None s)) \<and>
   \<not> isLoading (fst (request_cycle opts pf req (Some answered) s)) \<and>
   snd (request_cycle opts pf req (Some answered) s) \<noteq> Unanswered \<and>
   error (fst (request_cycle opts pf req (Some answered) s)) =
     (case snd (try_request opts pf req (Some answered) s) of
        Threw e \<Rightarrow> if isAbortError e \<or> call_onError opts e \<noteq> None then None else Some e
      | Returned u \<Rightarrow> None
      | Pending \<Rightarrow> None) \<and>
   isLoading (triggerRequest opts pf req answers s) =
     (length (fetched (triggerRequest opts pf req answers s)) =
        length (fetched s) + length answers + 1)"
  using try_request_isLoading[of opts pf req answer s]
    request_cycle_isLoading[of opts pf req None s]
    request_cycle_isLoading[of opts pf req "Some answered" s]
    request_cycle_unanswered[of opts pf req "Some answered" s]
    request_cycle_error[of opts pf req "Some answered" s]
    triggerRequest_isLoading[of opts pf req answers s]
  by simp

text \<open>
  The theorem on a session that holds an old error: a response with status 500 puts its
  error in the slot, a successful response empties it, and both end with \<open>isLoading\<close> false.
\<close>

theorem loading_and_error_slots_witness:
  "error (fst (request_cycle (example_options 1 StreamDataMode) example_platform
             (messages_only [user_message]) (Some failed_response)
             ((idle_session [])\<lparr>error := Some (Err ''Error'' ''old'' True)\<rparr>))) =
     Some (Err ''Error'' ''Internal Server Error'' True) \<and>
   error (fst (request_cycle (example_options 1 StreamDataMode) example_platform
             (messages_only [user_message]) (Some (ok_response []))
             ((idle_session [])\<lparr>error := Some (Err ''Error'' ''old'' True)\<rparr>))) = None \<and>
   isLoading (fst (request_cycle (example_options 1 StreamDataMode) example_platform
             (messages_only [user_message]) None (idle_session []))) \<and>
   \<not> isLoading (fst (request_cycle (example_options 1 StreamDataMode) example_platform
             (messages_only [user_message]) (Some failed_response) (idle_session [])))"
  using loading_and_error_slots[of "example_options 1 StreamDataMode" example_platform
          "messages_only [user_message]" "Some failed_response"
          "(idle_session [])\<lparr>error := Some (Err ''Error'' ''old'' True)\<rparr>" failed_response "[]"]
        loading_and_error_slots[of "example_options 1 StreamDataMode" example_platform
          "messages_only [user_message]" "Some (ok_response [])"
          "(idle_session [])\<lparr>error := Some (Err ''Error'' ''old'' True)\<rparr>" "ok_response []" "[]"]
        loading_and_error_slots[of "example_options 1 StreamDataMode" example_platform
          "messages_only [user_message]" None "idle_session []" failed_response "[]"]
  by (simp add: cycle_defs example_defs)

text \<open>
  The claim as stated fails when \<open>onError\<close> throws: a response with status 500 is a failure
  that is not an abort, the callback is called before \<open>setError\<close> and throws, and the request
  ends with \<open>isLoading\<close> false and the error slot empty.
\<close>

theorem loading_and_error_slots_counterexample:
  "snd (try_request failing_observer example_platform (messages_only [user_message])
          (Some failed_response) (idle_session [])) =
     Threw (Err ''Error'' ''Internal Server Error'' True) \<and>
   \<not> isAbortError (Err ''Error'' ''Internal Server Error'' True) \<and>
   request_cycle failing_observer example_platform (messages_only [user_message])
     (Some failed_response) (idle_session []) =
     ((idle_session [])\<lparr>abortControllerRef := Some AbortController,
                         fetched := [messages_only [user_message]]\<rparr>,
      Escapes (Err ''Error'' ''observer failed'' True)) \<and>
   error (fst (request_cycle failing_observer example_platform (messages_only [user_message])
                 (Some failed_response) (idle_session []))) = None"
  by (simp add: failing_observer_def cycle_defs example_defs)

section \<open>C7: the text mode of callChatApi\<close>

lemma read_text_stream_role:
  "read_text_stream pf gen ab upd reader held m s = (s', Inr m') \<Longrightarrow> role m' = role m"
proof (induction reader arbitrary: held m s)
  case Nil
  then show ?case by simp
next
  case (Cons ev reader)
  show ?case
  proof (cases ev)
    case (Chunk bytes)
    obtain decoded held' where d: "decoder pf held bytes = (decoded, held')"
      by (cases "decoder pf held bytes")
    let ?m = "m\<lparr>content := content m @ decoded, msgId := gen (nextId s)\<rparr>"
    let ?s = "upd [?m] (Some []) (s\<lparr>nextId := Suc (nextId s)\<rparr>)"
    show ?thesis
    proof (cases "case ab of None \<Rightarrow> False | Some f \<Rightarrow> f ?s = None")
      case True
      then show ?thesis using Cons.prems Chunk d by (auto simp: Let_def)
    next
      case False
      then have "read_text_stream pf gen ab upd reader held' ?m ?s = (s', Inr m')"
        using Cons.prems Chunk d by (simp add: Let_def)
      then have "role m' = role ?m" by (rule Cons.IH)
      then show ?thesis by simp
    qed
  next
    case (ReadFails e)
    then show ?thesis using Cons.prems by simp
  next
    case StopCalled
    then show ?thesis using Cons by (auto split: option.splits)
  qed
qed

lemma read_text_stream_all_chunks:
  assumes "ab = None \<or>
           (ab = Some abortControllerRef \<and>
            (\<forall>merged d st. abortControllerRef (upd merged d st) = abortControllerRef st))"
    and "ab = None \<or> abortControllerRef s \<noteq> None"
  shows "\<exists>s' m'. read_text_stream pf gen ab upd (map Chunk chunks) held m s = (s', Inr m') \<and>
           content m' = content m @ concat (decoded_chunks pf held chunks)"
  using assms(2)
proof (induction chunks arbitrary: held m s)
  case Nil
  then show ?case by simp
next
  case (Cons bytes chunks)
  obtain decoded held' where d: "decoder pf held bytes = (decoded, held')"
    by (cases "decoder pf held bytes")
  let ?m = "m\<lparr>content := content m @ decoded, msgId := gen (nextId s)\<rparr>"
  let ?s = "upd [?m] (Some []) (s\<lparr>nextId := Suc (nextId s)\<rparr>)"
  have k: "ab = None \<or> abortControllerRef ?s \<noteq> None"
    using assms(1) Cons.prems by auto
  then have n: "\<not> (case ab of None \<Rightarrow> False | Some f \<Rightarrow> f ?s = None)"
    using assms(1) by auto
  obtain s' m' where
    r: "read_text_stream pf gen ab upd (map Chunk chunks) held' ?m ?s = (s', Inr m')"
       "content m' = content ?m @ concat (decoded_chunks pf held' chunks)"
    using Cons.IH[OF k, of held' ?m] by blast
  have "read_text_stream pf gen ab upd (map Chunk (bytes # chunks)) held m s = (s', Inr m')"
    using d n r(1) by (simp add: Let_def)
  moreover have "content m' = content m @ concat (decoded_chunks pf held (bytes # chunks))"
    using d r(2) by simp
  ultimately show ?case by blast
qed

text \<open>
  C7. In the text mode, whenever \<open>callChatApi\<close> returns, it returns exactly one message,
  from the assistant, with empty side data. When the response is ok and every read of its
  body yields a chunk until the end, with no \<open>stop()\<close> in between, it does return, and the
  content of the message is the concatenation, in order, of the decoded chunks.
\<close>

theorem text_mode_single_message:
  "(\<forall>s' res. callChatApi pf req TextMode ab restore onResp upd gen answer s = (s', Returned res) \<longrightarrow>
      (\<exists>m. res = ([m], Some []) \<and> role m = Assistant)) \<and>
   (answer = Some (Resolves r) \<and> ok r \<and> responseBody r = Some (map Chunk chunks) \<and>
    (case onResp of None \<Rightarrow> True | Some f \<Rightarrow> f r = None) \<and>
    (ab = None \<or>
     (ab = Some abortControllerRef \<and> abortControllerRef s \<noteq> None \<and>
      (\<forall>merged d st. abortControllerRef (upd merged d st) = abortControllerRef st))) \<longrightarrow>
    (\<exists>s' m. callChatApi pf req TextMode ab restore onResp upd gen answer s =
               (s', Returned ([m], Some [])) \<and>
            role m = Assistant \<and>
            content m = concat (decoded_chunks pf [] chunks)))"
proof (intro conjI allI impI)
  fix s' res
  assume c: "callChatApi pf req TextMode ab restore onResp upd gen answer s = (s', Returned res)"
  then show "\<exists>m. res = ([m], Some []) \<and> role m = Assistant"
    by (auto simp: callChatApi_def Let_def dest!: read_text_stream_role
        split: option.splits fetch_result.splits if_splits prod.splits sum.splits)
next
  assume h: "answer = Some (Resolves r) \<and> ok r \<and> responseBody r = Some (map Chunk chunks) \<and>
    (case onResp of None \<Rightarrow> True | Some f \<Rightarrow> f r = None) \<and>
    (ab = None \<or>
     (ab = Some abortControllerRef \<and> abortControllerRef s \<noteq> None \<and>
      (\<forall>merged d st. abortControllerRef (upd merged d st) = abortControllerRef st)))"
  let ?m0 = "\<lparr> msgId = gen (nextId s), role = Assistant, content = [],
               toolInvocations = None, annotations = None,
               experimental_attachments = None, createdAt = Some (now r) \<rparr>"
  let ?s0 = "s\<lparr>fetched := fetched s @ [req], nextId := Suc (nextId s)\<rparr>"
  have a1: "ab = None \<or>
           (ab = Some abortControllerRef \<and>
            (\<forall>merged d st. abortControllerRef (upd merged d st) = abortControllerRef st))"
    using h by blast
  have a2: "ab = None \<or> abortControllerRef ?s0 \<noteq> None" using h by auto
  obtain s' m where
    t: "read_text_stream pf gen ab upd (map Chunk chunks) [] ?m0 ?s0 = (s', Inr m)"
       "content m = content ?m0 @ concat (decoded_chunks pf [] chunks)"
    using read_text_stream_all_chunks[OF a1 a2, of pf gen chunks "[]" ?m0] by blast
  have ro: "role m = Assistant" using read_text_stream_role[OF t(1)] by simp
  have "callChatApi pf req TextMode ab restore onResp upd gen answer s =
          (s', Returned ([m], Some []))"
    using h t(1) by (auto simp: callChatApi_def Let_def split: option.splits)
  then show "\<exists>s' m. callChatApi pf req TextMode ab restore onResp upd gen answer s =
               (s', Returned ([m], Some [])) \<and>
            role m = Assistant \<and> content m = concat (decoded_chunks pf [] chunks)"
    using ro t(2) by auto
qed

lemma example_decoder:
  "decoder example_platform held [0x68, 0x69] = (''hi'', [])"
  "decoder example_platform held [0x21] = (''!'', [])"
  by (simp_all add: example_platform_def) code_simp+

text \<open>
  The theorem on a body of two chunks, \<open>hi\<close> and \<open>!\<close>, read to the end.
\<close>

theorem text_mode_single_message_witness:
  "snd (callChatApi example_platform (messages_only [user_message]) TextMode
          (Some abortControllerRef) (restoreMessagesOnFailure (example_options 1 TextMode) [])
          None (onUpdate (messages_only [user_message]) None)
          (generateId (example_options 1 TextMode))
          (Some (ok_response [Chunk [0x68, 0x69], Chunk [0x21]]))
          ((idle_session [])\<lparr>abortControllerRef := Some AbortController\<rparr>)) =
     Returned ([\<lparr> msgId = ''ii'', role = Assistant, content = ''hi!'', toolInvocations = None,
                  annotations = None, experimental_attachments = None, createdAt = Some 0 \<rparr>],
               Some [])"
  using text_mode_single_message[of example_platform "messages_only [user_message]"
      "Some abortControllerRef" "restoreMessagesOnFailure (example_options 1 TextMode) []"
      None "onUpdate (messages_only [user_message]) None"
      "generateId (example_options 1 TextMode)"
      "Some (ok_response [Chunk [0x68, 0x69], Chunk [0x21]])"
      "(idle_session [])\<lparr>abortControllerRef := Some AbortController\<rparr>"
      "\<lparr> ok = True, responseText = [], responseBody = Some [Chunk [0x68, 0x69], Chunk [0x21]],
         now = 0 \<rparr>"
      "[[0x68, 0x69], [0x21]]"]
  by (simp add: callChatApi_def onUpdate_def example_decoder example_options_def idle_session_def
      ok_response_def Let_def numeral_2_eq_2)

section \<open>C2: the step budget\<close>

lemma fold_onUpdate_messages:
  "messagesRef (fold (\<lambda>(merged, d) st. onUpdate req ex merged d st) updates s) =
     (if updates = [] then messagesRef s else messages req @ fst (last updates))"
proof (induction updates arbitrary: s)
  case Nil
  then show ?case by simp
next
  case (Cons u updates)
  then show ?case by (cases u) (simp add: onUpdate_def)
qed

lemma stops_of_messages: "messagesRef (stops_of reader s) = messagesRef s"
  by (rule stops_of_frame) simp

lemma read_data_stream_messages:
  "messagesRef (fst (read_data_stream pf (onUpdate req ex) reader s)) =
     (if fst (parseComplexResponse pf (reads_of reader s)) = [] then messagesRef s
      else messages req @ fst (last (fst (parseComplexResponse pf (reads_of reader s)))))"
  by (simp add: read_data_stream_def fold_onUpdate_messages stops_of_messages split: prod.splits)

lemma getStreamedResponse_messages:
  assumes "getStreamedResponse opts pf req answer s = (s', c)"
  shows "messagesRef s' = messagesRef s \<or>
         (\<exists>merged. messagesRef s' = messages req @ merged \<and>
            (assistant_replies pf \<longrightarrow> (\<forall>m \<in> set merged. role m = Assistant)))"
proof -
  let ?s1 = "s\<lparr>messagesRef := messages req\<rparr>"
  let ?s2 = "?s1\<lparr>fetched := fetched ?s1 @ [req]\<rparr>"
  let ?U = "onUpdate req (streamDataRef ?s1)"
  have keep: "messagesRef s' = messages req \<Longrightarrow> ?thesis" by auto
  show ?thesis
  proof (cases answer)
    case None
    then have "messagesRef s' = messages req" using assms
      by (auto simp: getStreamedResponse_def callChatApi_def Let_def)
    then show ?thesis by (rule keep)
  next
    case (Some a)
    show ?thesis
    proof (cases a)
      case (Rejects x)
      then have "messagesRef s' = messagesRef s \<or> messagesRef s' = messages req"
        using assms Some
        by (auto simp: getStreamedResponse_def callChatApi_def Let_def restoreMessagesOnFailure_def
            split: if_splits)
      then show ?thesis using keep by blast
    next
      case (Resolves r)
      show ?thesis
      proof (cases "(case onResponse opts of None \<Rightarrow> None | Some f \<Rightarrow> f r) = None \<and> ok r \<and>
                    responseBody r \<noteq> None")
        case False
        then have "messagesRef s' = messagesRef s \<or> messagesRef s' = messages req"
          using assms Some Resolves
          by (auto simp: getStreamedResponse_def callChatApi_def Let_def restoreMessagesOnFailure_def
              split: option.splits if_splits)
        then show ?thesis using keep by blast
      next
        case True
        then obtain reader where b: "responseBody r = Some reader" by auto
        let ?published = "fst (parseComplexResponse pf (reads_of reader ?s2))"
        have "s' = fst (read_data_stream pf ?U reader ?s2)"
          using assms Some Resolves True b
          by (auto simp: getStreamedResponse_def callChatApi_def Let_def streamMode_or_default_def
              split: prod.splits sum.splits)
        then have m: "messagesRef s' =
            (if ?published = [] then messages req else messages req @ fst (last ?published))"
          by (simp add: read_data_stream_messages)
        show ?thesis
        proof (cases "?published = []")
          case True
          then show ?thesis using m by auto
        next
          case False
          then have "last ?published \<in> set ?published" by simp
          then have "assistant_replies pf \<longrightarrow>
              (\<forall>x \<in> set (fst (last ?published)). role x = Assistant)"
            by (auto simp: assistant_replies_def)
          then show ?thesis using m False by auto
        qed
      qed
    qed
  qed
qed

lemma request_cycle_messages:
  assumes "request_cycle opts pf req answer s = (s', e)"
  shows "messagesRef s' = messagesRef s \<or>
         (\<exists>merged. messagesRef s' = messages req @ merged \<and>
            (assistant_replies pf \<longrightarrow> (\<forall>m \<in> set merged. role m = Assistant)))"
proof -
  let ?s1 = "s\<lparr>isLoading := True, error := None, signalAborted := False, abortControllerRef := Some AbortController\<rparr>"
  obtain s2 c where g: "getStreamedResponse opts pf req answer ?s1 = (s2, c)"
    by (cases "getStreamedResponse opts pf req answer ?s1")
  have "messagesRef s' = messagesRef s2"
    using assms g
    by (auto simp: request_cycle_def try_request_def processChatStream_def
        split: completion.splits if_splits option.splits)
  then show ?thesis using getStreamedResponse_messages[OF g] by simp
qed


lemma trailing_assistants_append:
  "\<forall>m \<in> set merged. role m = Assistant \<Longrightarrow>
   trailing_assistants (msgs @ merged) = trailing_assistants msgs + length merged"
proof -
  assume "\<forall>m \<in> set merged. role m = Assistant"
  then have "takeWhile (\<lambda>m. role m = Assistant) (rev merged @ rev msgs) =
               rev merged @ takeWhile (\<lambda>m. role m = Assistant) (rev msgs)"
    by (intro takeWhile_append2) simp
  then show ?thesis by (simp add: trailing_assistants_def)
qed

lemma follow_up_chain_bound:
  assumes "assistant_replies pf"
  shows "messages req = messagesRef s \<Longrightarrow>
         int (length (fetched (triggerRequest opts pf req answers s))) \<le>
           int (length (fetched s)) +
           max 1 (maxSteps opts - int (trailing_assistants (messages req)))"
proof (induction answers arbitrary: req s)
  case Nil
  then show ?case by (simp add: request_cycle_fetched)
next
  case (Cons answer answers)
  obtain s' e where c: "request_cycle opts pf req (Some answer) s = (s', e)"
    by (cases "request_cycle opts pf req (Some answer) s")
  then have f: "fetched s' = fetched s @ [req]"
    using request_cycle_fetched[of opts pf req "Some answer" s] by simp
  show ?case
  proof (cases "e = FallsThrough \<and>
                auto_submit (messagesRef s') (length (messagesRef s)) (maxSteps opts)")
    case False
    then have "triggerRequest opts pf req (answer # answers) s = s'"
      using c by (cases e) auto
    then show ?thesis using f by simp
  next
    case True
    then have t: "triggerRequest opts pf req (answer # answers) s =
                    triggerRequest opts pf (messages_only (messagesRef s')) answers s'"
      using c by simp
    from True have g: "length (messagesRef s) < length (messagesRef s')"
      and sc: "spec_shouldContinue (messagesRef s') (maxSteps opts)"
      by (simp_all add: auto_submit_iff)
    from request_cycle_messages[OF c] g Cons.prems assms obtain merged where
      m: "messagesRef s' = messages req @ merged" "\<forall>x \<in> set merged. role x = Assistant"
      by auto
    from g m(1) Cons.prems have "merged \<noteq> []" by auto
    then have "0 < length merged" by simp
    then have tr: "trailing_assistants (messages req) < trailing_assistants (messagesRef s')"
      using trailing_assistants_append[OF m(2), of "messages req"] m(1) by simp
    have lt: "int (trailing_assistants (messagesRef s')) < maxSteps opts"
      using sc by (simp add: spec_shouldContinue_def)
    have "int (length (fetched (triggerRequest opts pf (messages_only (messagesRef s')) answers s')))
            \<le> int (length (fetched s')) +
               max 1 (maxSteps opts - int (trailing_assistants (messagesRef s')))"
      using Cons.IH[of "messages_only (messagesRef s')" s'] by (simp add: messages_only_def)
    then show ?thesis using t f tr lt by simp
  qed
qed

lemma triggerRequest_bound:
  assumes "assistant_replies pf"
  shows "int (length (fetched (triggerRequest opts pf req answers s))) \<le>
           int (length (fetched s)) + max 1 (maxSteps opts)"
proof (cases answers)
  case Nil
  then show ?thesis by (simp add: request_cycle_fetched)
next
  case (Cons answer rest)
  obtain s' e where c: "request_cycle opts pf req (Some answer) s = (s', e)"
    by (cases "request_cycle opts pf req (Some answer) s")
  then have f: "fetched s' = fetched s @ [req]"
    using request_cycle_fetched[of opts pf req "Some answer" s] by simp
  show ?thesis
  proof (cases "e = FallsThrough \<and>
                auto_submit (messagesRef s') (length (messagesRef s)) (maxSteps opts)")
    case False
    then have "triggerRequest opts pf req answers s = s'"
      using c Cons by (cases e) auto
    then show ?thesis using f by simp
  next
    case True
    then have t: "triggerRequest opts pf req answers s =
                    triggerRequest opts pf (messages_only (messagesRef s')) rest s'"
      using c Cons by simp
    from True have sc: "spec_shouldContinue (messagesRef s') (maxSteps opts)"
      by (simp add: auto_submit_iff)
    then have p: "0 < trailing_assistants (messagesRef s')"
      using trailing_pos[of "messagesRef s'"]
      by (simp add: spec_shouldContinue_def ready_for_continuation_def)
    have lt: "int (trailing_assistants (messagesRef s')) < maxSteps opts"
      using sc by (simp add: spec_shouldContinue_def)
    have "int (length (fetched (triggerRequest opts pf (messages_only (messagesRef s')) rest s')))
            \<le> int (length (fetched s')) +
               max 1 (maxSteps opts - int (trailing_assistants (messagesRef s')))"
      using follow_up_chain_bound[OF assms, where req = "messages_only (messagesRef s')"
          and s = s' and answers = rest and opts = opts]
      by (simp add: messages_only_def)
    then show ?thesis using t f p lt by simp
  qed
qed

lemma automatic_requests:
  "\<forall>r \<in> set (drop (Suc (length (fetched s))) (fetched (triggerRequest opts pf req answers s))).
     r = messages_only (messages r) \<and> spec_shouldContinue (messages r) (maxSteps opts)"
proof (induction answers arbitrary: req s)
  case Nil
  then show ?case by (simp add: request_cycle_fetched)
next
  case (Cons answer answers)
  obtain s' e where c: "request_cycle opts pf req (Some answer) s = (s', e)"
    by (cases "request_cycle opts pf req (Some answer) s")
  then have f: "fetched s' = fetched s @ [req]"
    using request_cycle_fetched[of opts pf req "Some answer" s] by simp
  show ?case
  proof (cases "e = FallsThrough \<and>
                auto_submit (messagesRef s') (length (messagesRef s)) (maxSteps opts)")
    case False
    then have "triggerRequest opts pf req (answer # answers) s = s'"
      using c by (cases e) auto
    then show ?thesis using f by simp
  next
    case True
    let ?r = "messages_only (messagesRef s')"
    let ?final = "triggerRequest opts pf ?r answers s'"
    from True have t: "triggerRequest opts pf req (answer # answers) s = ?final"
      using c by simp
    from True have sc: "spec_shouldContinue (messagesRef s') (maxSteps opts)"
      by (simp add: auto_submit_iff)
    obtain later where l: "fetched ?final = fetched s' @ ?r # later"
      using triggerRequest_fetched[of opts pf ?r answers s'] by blast
    then have d: "drop (Suc (length (fetched s))) (fetched ?final) = ?r # later"
      using f by simp
    have d': "drop (Suc (length (fetched s'))) (fetched ?final) = later"
      using l by simp
    have "\<forall>r \<in> set later. r = messages_only (messages r) \<and>
            spec_shouldContinue (messages r) (maxSteps opts)"
      using Cons[of s' ?r] d' by simp
    then show ?thesis using t d sc by (simp add: messages_only_def)
  qed
qed

text \<open>
  C2. In every run of \<open>triggerRequest\<close>, each request after the first is an automatic one:
  it carries the messages only, and when it is issued these messages end in an assistant
  message that is ready for continuation and the number of their trailing assistant
  messages is strictly less than \<open>maxSteps\<close>. With \<open>maxSteps\<close> at most one, and so with the
  default of \<open>maxSteps\<close>, the run issues the caller's request and no other. When the
  messages that \<open>parseComplexResponse\<close> publishes are assistant messages, a run issues at
  most \<open>maxSteps\<close> requests (one when \<open>maxSteps\<close> is less than one), and it ends, with
  \<open>isLoading\<close> false, as soon as that many fetches are answered.
\<close>

theorem automatic_requests_within_budget:
  "(\<forall>r \<in> set (drop (Suc (length (fetched s))) (fetched (triggerRequest opts pf req answers s))).
      r = messages_only (messages r) \<and> ready_for_continuation (last (messages r)) \<and>
      int (trailing_assistants (messages r)) < maxSteps opts) \<and>
   (maxSteps opts \<le> 1 \<longrightarrow> fetched (triggerRequest opts pf req answers s) = fetched s @ [req]) \<and>
   (maxSteps opts = resolve_maxSteps None None None None \<longrightarrow>
      fetched (triggerRequest opts pf req answers s) = fetched s @ [req]) \<and>
   (assistant_replies pf \<longrightarrow>
      int (length (fetched (triggerRequest opts pf req answers s))) \<le>
        int (length (fetched s)) + max 1 (maxSteps opts) \<and>
      (max 1 (maxSteps opts) \<le> int (length answers) \<longrightarrow>
         \<not> isLoading (triggerRequest opts pf req answers s)))"
proof (intro conjI impI)
  show "\<forall>r \<in> set (drop (Suc (length (fetched s)))
                       (fetched (triggerRequest opts pf req answers s))).
          r = messages_only (messages r) \<and> ready_for_continuation (last (messages r)) \<and>
          int (trailing_assistants (messages r)) < maxSteps opts"
    using automatic_requests[of s opts pf req answers]
    by (simp add: spec_shouldContinue_def)
next
  assume "maxSteps opts \<le> 1"
  then show "fetched (triggerRequest opts pf req answers s) = fetched s @ [req]"
    by (rule triggerRequest_no_follow_up)
next
  assume "maxSteps opts = resolve_maxSteps None None None None"
  then have "maxSteps opts \<le> 1" by (simp add: resolve_maxSteps_def)
  then show "fetched (triggerRequest opts pf req answers s) = fetched s @ [req]"
    by (rule triggerRequest_no_follow_up)
next
  assume "assistant_replies pf"
  then show "int (length (fetched (triggerRequest opts pf req answers s))) \<le>
               int (length (fetched s)) + max 1 (maxSteps opts)"
    by (rule triggerRequest_bound)
next
  assume a: "assistant_replies pf" and n: "max 1 (maxSteps opts) \<le> int (length answers)"
  have "int (length (fetched (triggerRequest opts pf req answers s))) \<le>
          int (length (fetched s)) + max 1 (maxSteps opts)"
    using a by (rule triggerRequest_bound)
  then have "length (fetched (triggerRequest opts pf req answers s)) \<noteq>
               length (fetched s) + length answers + 1"
    using n by linarith
  then show "\<not> isLoading (triggerRequest opts pf req answers s)"
    by (simp add: triggerRequest_isLoading)
qed

lemma example_assistant_replies: "assistant_replies example_platform"
  by (simp add: assistant_replies_def example_platform_def assistant_done_def assistant_open_def)

text \<open>
  The theorem on a run with a budget of three steps in which every answer is an assistant
  message with a completed tool call: the caller's request is followed by two automatic
  ones, and the fourth answer is never asked for.
\<close>

theorem automatic_requests_within_budget_witness:
  "fetched (triggerRequest (example_options 3 StreamDataMode) example_platform
              (messages_only [user_message])
              [ok_response [], ok_response [], ok_response [], ok_response []]
              (idle_session [])) =
     [messages_only [user_message],
      messages_only [user_message, assistant_done],
      messages_only [user_message, assistant_done, assistant_done]] \<and>
   \<not> isLoading (triggerRequest (example_options 3 StreamDataMode) example_platform
              (messages_only [user_message])
              [ok_response [], ok_response [], ok_response [], ok_response []]
              (idle_session [])) \<and>
   fetched (triggerRequest (example_options 1 StreamDataMode) example_platform
              (messages_only [user_message]) [ok_response []] (idle_session [])) =
     [messages_only [user_message]]"
proof -
  let ?o = "example_options 3 StreamDataMode"
  let ?a = "[ok_response [], ok_response [], ok_response [], ok_response []]"
  have r: "fetched (triggerRequest ?o example_platform (messages_only [user_message]) ?a
                      (idle_session [])) =
     [messages_only [user_message],
      messages_only [user_message, assistant_done],
      messages_only [user_message, assistant_done, assistant_done]]"
    by (simp add: cycle_defs example_defs auto_submit_def lastMessage_def
        isAssistantMessageWithCompletedToolCalls_def result_in_def
        countTrailingAssistantMessages_def numeral_3_eq_3)
  show ?thesis
    using automatic_requests_within_budget[of "idle_session []" ?o example_platform
        "messages_only [user_message]" ?a]
      automatic_requests_within_budget[of "idle_session []" "example_options 1 StreamDataMode"
        example_platform "messages_only [user_message]" "[ok_response []]"]
      example_assistant_replies r
    by (simp add: example_options_def idle_session_def)
qed

section \<open>C3: addToolResult triggers one request\<close>

lemma updatedMessages_snoc:
  "updatedMessages (earlier @ [m]) callId res =
     earlier @ [if role m = Assistant
                then m\<lparr>toolInvocations :=
                       map_option (map (attach_result callId res)) (toolInvocations m)\<rparr>
                else m]"
proof (rule nth_equalityI)
  show "length (updatedMessages (earlier @ [m]) callId res) =
          length (earlier @ [if role m = Assistant
                then m\<lparr>toolInvocations :=
                       map_option (map (attach_result callId res)) (toolInvocations m)\<rparr>
                else m])"
    by (simp add: length_updatedMessages)
next
  fix i
  assume "i < length (updatedMessages (earlier @ [m]) callId res)"
  then have i: "i < Suc (length earlier)" by (simp add: length_updatedMessages)
  let ?u = "updatedMessages (earlier @ [m]) callId res"
  show "?u ! i =
          (earlier @ [if role m = Assistant
                then m\<lparr>toolInvocations :=
                       map_option (map (attach_result callId res)) (toolInvocations m)\<rparr>
                else m]) ! i"
  proof (cases "i < length earlier")
    case True
    then have "?u ! i = (earlier @ [m]) ! i"
      by (intro nth_updatedMessages_earlier) simp
    then show ?thesis using True by (simp add: nth_append)
  next
    case False
    with i have e: "i = length earlier" by simp
    have n: "?u \<noteq> []" using length_updatedMessages[of "earlier @ [m]" callId res] by auto
    have "?u ! i = last ?u"
      using e n by (simp add: last_conv_nth length_updatedMessages)
    then show ?thesis using e by (simp add: last_updatedMessages nth_append)
  qed
qed

text \<open>
  C3. Let the message list end in an assistant message of which exactly one tool invocation
  lacks a result, and let that invocation have the given \<open>toolCallId\<close>. Then \<open>addToolResult\<close>
  does not throw; the stored list is the old one with the result attached to that
  invocation; the list is handed to one request, issued at once, which carries these
  messages only; and no other request follows before an answer arrives, nor ever when
  \<open>maxSteps\<close> is at most one, whatever the answers are.
\<close>

theorem addToolResult_triggers_one_request:
  assumes "messagesRef s = earlier @ [m]"
    and "role m = Assistant"
    and "toolInvocations m = Some (before @ t # after)"
    and "result t = None"
    and "toolCallId t = callId"
    and "list_all (\<lambda>x. result x \<noteq> None) (before @ after)"
  shows "\<exists>s' later.
           addToolResult opts pf callId res answers s = Inr s' \<and>
           updatedMessages (messagesRef s) callId res =
             earlier @
             [m\<lparr>toolInvocations :=
                  Some (map (attach_result callId res) before @ t\<lparr>result := Some res\<rparr> #
                        map (attach_result callId res) after)\<rparr>] \<and>
           fetched s' =
             fetched s @ messages_only (updatedMessages (messagesRef s) callId res) # later \<and>
           (answers = [] \<or> maxSteps opts \<le> 1 \<longrightarrow> later = [])"
proof -
  let ?invs = "map (attach_result callId res) before @ t\<lparr>result := Some res\<rparr> #
               map (attach_result callId res) after"
  let ?m = "m\<lparr>toolInvocations := Some ?invs\<rparr>"
  let ?u = "updatedMessages (messagesRef s) callId res"
  let ?s1 = "s\<lparr>messagesRef := ?u\<rparr>"
  let ?final = "triggerRequest opts pf (messages_only ?u) answers ?s1"
  have u: "?u = earlier @ [?m]"
    using assms(1,2,3,5) by (simp add: updatedMessages_snoc attach_result_def)
  have "list_all (\<lambda>x. result x \<noteq> None) ?invs"
    using assms(6) by (auto simp: list_all_iff attach_result_def)
  then have "isAssistantMessageWithCompletedToolCalls ?m"
    using assms(2) by (simp add: completed_ready ready_for_continuation_def)
  then have a: "addToolResult opts pf callId res answers s = Inr ?final"
    using u by (simp add: addToolResult_def Let_def lastMessage_last)
  obtain later where l: "fetched ?final = fetched ?s1 @ messages_only ?u # later"
    using triggerRequest_fetched[of opts pf "messages_only ?u" answers ?s1] by blast
  have "answers = [] \<or> maxSteps opts \<le> 1 \<longrightarrow> later = []"
  proof
    assume "answers = [] \<or> maxSteps opts \<le> 1"
    then have "fetched ?final = fetched ?s1 @ [messages_only ?u]"
      using triggerRequest_no_follow_up[of opts pf "messages_only ?u" answers ?s1]
      by (auto simp: request_cycle_fetched)
    then show "later = []" using l by simp
  qed
  then show ?thesis using a u l by auto
qed

text \<open>
  The theorem with a budget of one step, where the answer to the request again ends in an
  assistant message whose tool invocation has its result: one request, and no other.
\<close>

theorem addToolResult_triggers_one_request_witness:
  "map_sum id fetched
     (addToolResult (example_options 1 StreamDataMode) example_platform ''call-1''
        (JString ''sunny'') [ok_response [], ok_response []]
        (idle_session [user_message, assistant_open])) =
     Inr [messages_only [user_message, assistant_done]] \<and>
   map_sum id messagesRef
     (addToolResult (example_options 1 StreamDataMode) example_platform ''call-1''
        (JString ''sunny'') [ok_response [], ok_response []]
        (idle_session [user_message, assistant_open])) =
     Inr [user_message, assistant_done, assistant_done]"
proof -
  have h: "messagesRef (idle_session [user_message, assistant_open]) = [user_message] @ [assistant_open]"
    "role assistant_open = Assistant"
    "toolInvocations assistant_open = Some ([] @ tool_open # [])"
    "result tool_open = None" "toolCallId tool_open = ''call-1''"
    "list_all (\<lambda>x. result x \<noteq> None) ([] @ [])"
    by (simp_all add: example_defs)
  from addToolResult_triggers_one_request[OF h, of "example_options 1 StreamDataMode"
      example_platform "JString ''sunny''" "[ok_response [], ok_response []]"]
  show ?thesis
    by (simp add: addToolResult_def updatedMessages_def array_map_def lastMessage_def
        isAssistantMessageWithCompletedToolCalls_def result_in_def cycle_defs example_defs
        auto_submit_def)
qed


section \<open>C5: stop during a response\<close>









end
